theory Spec2Isabelle
  imports Complex_Main "HOL-Library.AList"
begin

section \<open>Strings\<close>

text \<open>
  A JavaScript string is a sequence of UTF-16 code units. The model uses \<open>string\<close> and reads
  each \<open>char\<close> as the code unit of the same number, so it covers the code units
  U+0000 to U+00FF; \<open>length\<close> is the \<open>.length\<close> of the source.
\<close>

definition nl :: char where
  "nl = CHR 0x0A"

text \<open>
  White space as \<open>String.prototype.trim\<close> and the regular expression class \<open>\s\<close> see it
  (tab, line feed, vertical tab, form feed, carriage return, space, no-break space).
\<close>

definition is_space :: "char \<Rightarrow> bool" where
  "is_space c \<longleftrightarrow> c \<in> {CHR 0x09, CHR 0x0A, CHR 0x0B, CHR 0x0C, CHR 0x0D, CHR 0x20, CHR 0xA0}"

text \<open>The class \<open>\w\<close> that decides the word boundary \<open>\b\<close>: ASCII letters, digits, underscore.\<close>

definition is_word :: "char \<Rightarrow> bool" where
  "is_word c \<longleftrightarrow> (let n = (of_char c :: nat) in
     (48 \<le> n \<and> n \<le> 57) \<or> (65 \<le> n \<and> n \<le> 90) \<or> n = 95 \<or> (97 \<le> n \<and> n \<le> 122))"

definition trim :: "string \<Rightarrow> string" where
  "trim s = rev (dropWhile is_space (rev (dropWhile is_space s)))"

text \<open>\<open>String.prototype.toLowerCase\<close> on the code units of the model.\<close>

definition lower_char :: "char \<Rightarrow> char" where
  "lower_char c = (let n = (of_char c :: nat) in
     if (65 \<le> n \<and> n \<le> 90) \<or> (192 \<le> n \<and> n \<le> 222 \<and> n \<noteq> 215) then char_of (n + 32) else c)"

definition toLowerCase :: "string \<Rightarrow> string" where
  "toLowerCase s = map lower_char s"

text \<open>
  \<open>/\bblank\b/gi\<close> tried at the head of the rest of the subject: the five letters in either
  case (the flag \<open>i\<close> without \<open>u\<close> folds ASCII letters only), then a word boundary, which after
  the word character \<open>k\<close> is the end of the subject or a non-word character.
\<close>

fun blank_at :: "string \<Rightarrow> bool" where
  "blank_at (c1 # c2 # c3 # c4 # c5 # rest) \<longleftrightarrow>
     (c1 = CHR ''b'' \<or> c1 = CHR ''B'') \<and> (c2 = CHR ''l'' \<or> c2 = CHR ''L'') \<and>
     (c3 = CHR ''a'' \<or> c3 = CHR ''A'') \<and> (c4 = CHR ''n'' \<or> c4 = CHR ''N'') \<and>
     (c5 = CHR ''k'' \<or> c5 = CHR ''K'') \<and>
     (case rest of [] \<Rightarrow> True | d # _ \<Rightarrow> \<not> is_word d)"
| "blank_at _ \<longleftrightarrow> False"

text \<open>
  \<open>s.replace(/\bblank\b/gi, '')\<close>: the scan goes left to right over the subject; \<open>pw\<close> says
  whether the code unit before the current position is a word character (false at the
  start). The leading \<open>\b\<close> holds before the word character \<open>b\<close> exactly when \<open>pw\<close> is false.
  After a match the scan resumes behind it, the code unit before being the \<open>k\<close>.
\<close>

fun remove_blank :: "bool \<Rightarrow> string \<Rightarrow> string" where
  "remove_blank pw [] = []"
| "remove_blank pw (c # cs) =
     (if \<not> pw \<and> blank_at (c # cs) then remove_blank True (drop 4 cs)
      else c # remove_blank (is_word c) cs)"

lemma length_dropWhile_less_Suc [termination_simp]:
  "length (dropWhile P xs) < Suc (length xs)"
  by (simp add: length_dropWhile_le less_Suc_eq_le)

text \<open>\<open>s.replace(/\s{2,}/g, ' ')\<close>: every maximal run of two or more white space code units
  becomes one space; a single one stays as it is.\<close>

fun collapse_runs :: "string \<Rightarrow> string" where
  "collapse_runs [] = []"
| "collapse_runs [c] = [c]"
| "collapse_runs (c # d # ds) =
     (if is_space c \<and> is_space d then CHR '' '' # collapse_runs (dropWhile is_space ds)
      else c # collapse_runs (d # ds))"

text \<open>\<open>s.replace(/\s+/g, ' ')\<close>: every maximal run of white space becomes one space.\<close>

fun squash_space :: "string \<Rightarrow> string" where
  "squash_space [] = []"
| "squash_space (c # cs) =
     (if is_space c then CHR '' '' # squash_space (dropWhile is_space cs)
      else c # squash_space cs)"

text \<open>The helper \<open>clean\<close> of \<open>sanitizeQuestion\<close>, on a string.\<close>

definition clean :: "string \<Rightarrow> string" where
  "clean s = trim (collapse_runs (remove_blank False s))"

text \<open>\<open>buffer.indexOf("\n")\<close>, with \<open>None\<close> for the \<open>-1\<close> of the source.\<close>

definition indexOf_nl :: "string \<Rightarrow> nat option" where
  "indexOf_nl s = (if nl \<in> set s then Some (length (takeWhile (\<lambda>c. c \<noteq> nl) s)) else None)"

lemma indexOf_nl_drop:
  "indexOf_nl s = Some i \<Longrightarrow> i < length s \<and> drop i s = nl # drop (Suc i) s"
proof -
  assume "indexOf_nl s = Some i"
  then have mem: "nl \<in> set s" and i: "i = length (takeWhile (\<lambda>c. c \<noteq> nl) s)"
    by (auto simp: indexOf_nl_def split: if_splits)
  from mem have "length (takeWhile (\<lambda>c. c \<noteq> nl) s) < length s \<and>
      drop (length (takeWhile (\<lambda>c. c \<noteq> nl) s)) s =
        nl # drop (Suc (length (takeWhile (\<lambda>c. c \<noteq> nl) s))) s"
    by (induction s) auto
  with i show ?thesis
    by simp
qed

text \<open>\<open>text.split(/\n+/)\<close>: the pieces between maximal runs of line feeds.\<close>

function split_nl :: "string \<Rightarrow> string list" where
  "split_nl s = (case indexOf_nl s of
       None \<Rightarrow> [s]
     | Some i \<Rightarrow> take i s # split_nl (dropWhile (\<lambda>c. c = nl) (drop i s)))"
  by pat_completeness auto
termination
proof (relation "measure length")
  fix s i
  assume i: "indexOf_nl s = Some i"
  have "i < length s" and "drop i s = nl # drop (Suc i) s"
    using indexOf_nl_drop [OF i] by simp_all
  then have "length (dropWhile (\<lambda>c. c = nl) (drop i s)) \<le> length (drop (Suc i) s)"
    using length_dropWhile_le [of "\<lambda>c. c = nl" "drop (Suc i) s"] by simp
  with \<open>i < length s\<close> show "(dropWhile (\<lambda>c. c = nl) (drop i s), s) \<in> measure length"
    by simp
qed simp

declare split_nl.simps [simp del]

text \<open>\<open>text.split(/\n+/).map(l => l.trim()).filter(Boolean)\<close>\<close>

definition lines_of :: "string \<Rightarrow> string list" where
  "lines_of text = filter (\<lambda>l. l \<noteq> []) (map trim (split_nl text))"

text \<open>Decimal rendering of a number in a template literal.\<close>

function decimal :: "nat \<Rightarrow> string" where
  "decimal n = (if n < 10 then [''0123456789'' ! n]
                else decimal (n div 10) @ [''0123456789'' ! (n mod 10)])"
  by pat_completeness auto
termination
  by (relation "measure id") auto

declare decimal.simps [simp del]

section \<open>JSON values\<close>

text \<open>
  What \<open>JSON.parse\<close> returns, and \<open>undefined\<close> for a property that is not there. An object
  is the list of its own properties in property order. A number is the rational it denotes
  (a number literal too large for a double parses to an infinity, which the comparisons of
  the source treat like any number above 10 or below 0).
\<close>

datatype jsval =
    JUndefined
  | JNull
  | JBool bool
  | JNum rat
  | JStr string
  | JArr "jsval list"
  | JObj "(string \<times> jsval) list"

text \<open>The value in a boolean position: \<open>!q\<close> is \<open>\<not> truthy q\<close>.\<close>

fun truthy :: "jsval \<Rightarrow> bool" where
  "truthy JUndefined = False"
| "truthy JNull = False"
| "truthy (JBool b) = b"
| "truthy (JNum n) = (n \<noteq> 0)"
| "truthy (JStr s) = (s \<noteq> [])"
| "truthy (JArr xs) = True"
| "truthy (JObj kvs) = True"

text \<open>\<open>typeof v === "object"\<close>\<close>

fun is_object :: "jsval \<Rightarrow> bool" where
  "is_object JNull = True"
| "is_object (JArr xs) = True"
| "is_object (JObj kvs) = True"
| "is_object _ = False"

text \<open>
  The property read \<open>v.k\<close> for the property names of the source, none of which is an array
  index, \<open>length\<close> or inherited: only an object has them.
\<close>

fun get :: "jsval \<Rightarrow> string \<Rightarrow> jsval" where
  "get (JObj kvs) k = (case map_of kvs k of Some v \<Rightarrow> v | None \<Rightarrow> JUndefined)"
| "get _ k = JUndefined"

text \<open>The own enumerable properties that \<open>{...q}\<close> copies.\<close>

fun spread :: "jsval \<Rightarrow> (string \<times> jsval) list" where
  "spread (JObj kvs) = kvs"
| "spread (JArr xs) = zip (map decimal [0..<length xs]) xs"
| "spread (JStr s) = zip (map decimal [0..<length s]) (map (\<lambda>c. JStr [c]) s)"
| "spread _ = []"

section \<open>Question Validator\<close>

text \<open>\<open>typeof v === "string" && v.trim().length > 0\<close>\<close>

definition nonblank_string :: "jsval \<Rightarrow> bool" where
  "nonblank_string v = (case v of JStr s \<Rightarrow> 0 < length (trim s) | _ \<Rightarrow> False)"

definition labels :: "string list" where
  "labels = [''A'', ''B'', ''C'', ''D'']"

text \<open>\<open>isValidQuestion\<close>, one branch for each early return of the source.\<close>

definition isValidQuestion :: "jsval \<Rightarrow> bool" where
  "isValidQuestion q =
    (if \<not> truthy q \<or> \<not> is_object q then False
     else if (case get q ''question'' of JStr s \<Rightarrow> length (trim s) < 5 | _ \<Rightarrow> True) then False
     else if (case get q ''multipleChoiceOptions'' of JArr xs \<Rightarrow> length xs \<noteq> 4 | _ \<Rightarrow> True)
       then False
     else if \<not> (case get q ''multipleChoiceOptions'' of
                   JArr xs \<Rightarrow> list_all nonblank_string xs | _ \<Rightarrow> False) then False
     else if get q ''correctAnswer'' \<notin> set (map JStr labels) then False
     else
       (let ie = (if truthy (get q ''incorrectExplanations'')
                  then get q ''incorrectExplanations'' else JObj [])
        in if \<not> truthy ie \<or> \<not> is_object ie then False
           else if \<not> list_all (\<lambda>k. nonblank_string (get ie k)) labels then False
           else if \<not> nonblank_string (get q ''correctExplanation'') then False
           else True))"

text \<open>
  The acceptance conditions in the words of the specification: a stem of trimmed length at
  least 5, exactly four options each non-empty after trimming, a label among the four, an
  explanations object with a string non-empty after trimming under each label, and a
  rationale that is a non-empty string.
\<close>

definition spec_accepts :: "jsval \<Rightarrow> bool" where
  "spec_accepts q \<longleftrightarrow>
     (case get q ''question'' of JStr s \<Rightarrow> 5 \<le> length (trim s) | _ \<Rightarrow> False) \<and>
     (case get q ''multipleChoiceOptions'' of
        JArr xs \<Rightarrow> length xs = 4 \<and> list_all nonblank_string xs | _ \<Rightarrow> False) \<and>
     get q ''correctAnswer'' \<in> set (map JStr labels) \<and>
     (case get q ''incorrectExplanations'' of
        JObj kvs \<Rightarrow> list_all (\<lambda>k. nonblank_string (get (JObj kvs) k)) labels | _ \<Rightarrow> False) \<and>
     (case get q ''correctExplanation'' of JStr s \<Rightarrow> s \<noteq> [] | _ \<Rightarrow> False)"

text \<open>The same conditions with the rationale read after trimming, as the other strings are.\<close>

definition spec_accepts_trimmed :: "jsval \<Rightarrow> bool" where
  "spec_accepts_trimmed q \<longleftrightarrow>
     (case get q ''question'' of JStr s \<Rightarrow> 5 \<le> length (trim s) | _ \<Rightarrow> False) \<and>
     (case get q ''multipleChoiceOptions'' of
        JArr xs \<Rightarrow> length xs = 4 \<and> list_all nonblank_string xs | _ \<Rightarrow> False) \<and>
     get q ''correctAnswer'' \<in> set (map JStr labels) \<and>
     (case get q ''incorrectExplanations'' of
        JObj kvs \<Rightarrow> list_all (\<lambda>k. nonblank_string (get (JObj kvs) k)) labels | _ \<Rightarrow> False) \<and>
     nonblank_string (get q ''correctExplanation'')"

section \<open>Sanitizer\<close>

text \<open>\<open>clean\<close> on any value: a string is cleaned, anything else is returned as it is.\<close>

definition clean_val :: "jsval \<Rightarrow> jsval" where
  "clean_val v = (case v of JStr s \<Rightarrow> JStr (clean s) | _ \<Rightarrow> v)"

text \<open>\<open>Array.isArray(o) ? o.map(clean) : o\<close>\<close>

definition clean_options :: "jsval \<Rightarrow> jsval" where
  "clean_options v = (case v of JArr xs \<Rightarrow> JArr (map clean_val xs) | _ \<Rightarrow> v)"

text \<open>
  \<open>sanitizeQuestion\<close> of the streaming route. Reading a property of \<open>null\<close> or \<open>undefined\<close>
  throws, and the \<open>catch\<close> returns \<open>q\<close>. Setting a property keeps its place in the object
  when it is there and appends it otherwise, as \<open>AList.update\<close> does.
\<close>

definition sanitizeQuestion :: "jsval \<Rightarrow> jsval" where
  "sanitizeQuestion q =
    (if q = JUndefined \<or> q = JNull then q
     else JObj (AList.update ''multipleChoiceOptions'' (clean_options (get q ''multipleChoiceOptions''))
                 (AList.update ''question'' (clean_val (get q ''question'')) (spread q))))"

text \<open>The function mapped over \<open>parsed.questions\<close> by the non-streaming route.\<close>

definition sanitize_element :: "jsval \<Rightarrow> jsval" where
  "sanitize_element q =
    (if truthy q \<and> is_object q then
       JObj (AList.update ''correctExplanation'' (get q ''correctExplanation'')
            (AList.update ''incorrectExplanations'' (get q ''incorrectExplanations'')
            (AList.update ''multipleChoiceOptions'' (clean_options (get q ''multipleChoiceOptions''))
            (AList.update ''question'' (clean_val (get q ''question'')) (spread q)))))
     else q)"

section \<open>Requested count\<close>

text \<open>
  \<open>typeof body.count === "number" && body.count > 0 ? Math.min(10, body.count) : 10\<close>, the
  argument being \<open>body.count\<close> (\<open>JUndefined\<close> when the request has none).
\<close>

definition effective_count :: "jsval \<Rightarrow> rat" where
  "effective_count c = (case c of JNum n \<Rightarrow> if 0 < n then min 10 n else 10 | _ \<Rightarrow> 10)"

section \<open>Line Framer\<close>

text \<open>
  The loop \<open>while ((idx = buffer.indexOf("\n")) !== -1)\<close> of the primary stream: it takes
  the text before the first line feed off the buffer, trims it, skips it when it is empty
  and otherwise runs the \<open>try\<close> block of the loop body on it. The block never touches the
  buffer; it is the parameter \<open>h\<close>, a function on the state of the session. The result is
  the rest of the buffer and the state.
\<close>

function drain :: "(string \<Rightarrow> 's \<Rightarrow> 's) \<Rightarrow> string \<Rightarrow> 's \<Rightarrow> string \<times> 's" where
  "drain h buffer st =
     (case indexOf_nl buffer of
        None \<Rightarrow> (buffer, st)
      | Some idx \<Rightarrow>
          (let line = trim (take idx buffer); buffer' = drop (idx + 1) buffer
           in if line = [] then drain h buffer' st else drain h buffer' (h line st)))"
  by pat_completeness auto
termination
  by (relation "measure (\<lambda>(h, buffer, st). length buffer)")
     (auto dest: indexOf_nl_drop)

declare drain.simps [simp del]

text \<open>
  \<open>for await (const chunk of result.stream)\<close>: each chunk is appended to the buffer, \<open>pre\<close>
  is what the body does before the inner loop (it reports the chunk), then the buffer is
  drained.
\<close>

fun feed :: "(string \<Rightarrow> 's \<Rightarrow> 's) \<Rightarrow> ('s \<Rightarrow> 's) \<Rightarrow> string list \<Rightarrow> string \<Rightarrow> 's \<Rightarrow> string \<times> 's"
where
  "feed h pre [] buffer st = (buffer, st)"
| "feed h pre (txt # chunks) buffer st =
     (case drain h (buffer @ txt) (pre st) of (buffer', st') \<Rightarrow> feed h pre chunks buffer' st')"

section \<open>Events and session state\<close>

text \<open>
  One line of the response. A \<open>server\<close> event is kept with its stage only (its time stamp
  and counters are telemetry); a \<open>progress\<close> event carries \<open>completed\<close> and \<open>total\<close>.
\<close>

datatype event =
    Server string
  | Question nat jsval
  | Progress nat rat
  | Done
  | Error

text \<open>
  The variables of one request: \<open>emitted\<close>, the lines enqueued on the response so far, and
  the number of \<open>generateContent\<close> calls made so far.
\<close>

record session =
  emitted :: nat
  out :: "event list"
  calls :: nat

definition enqueue :: "event list \<Rightarrow> session \<Rightarrow> session" where
  "enqueue es s = s\<lparr>out := out s @ es\<rparr>"

text \<open>\<open>emitted += 1\<close>, then the question event and the progress event.\<close>

definition emit_question :: "rat \<Rightarrow> jsval \<Rightarrow> session \<Rightarrow> session" where
  "emit_question count u s =
     enqueue [Question (emitted s + 1) u, Progress (emitted s + 1) count]
       (s\<lparr>emitted := emitted s + 1\<rparr>)"

text \<open>
  The upstream model. A non-streaming call returns a text or throws; the calls of a request
  are made one after the other, and \<open>up n\<close> is what call number \<open>n\<close> does.
\<close>

datatype reply = Text string | Throws

definition generateContent :: "(nat \<Rightarrow> reply) \<Rightarrow> session \<Rightarrow> reply \<times> session" where
  "generateContent up s = (up (calls s), s\<lparr>calls := calls s + 1\<rparr>)"

text \<open>
  The primary call: \<open>generateContentStream\<close> is missing or returns no stream, or it
  throws, or it returns a stream that delivers chunks of text and closes, or one that
  delivers chunks and then throws.
\<close>

datatype primary =
    Unavailable
  | Unreachable
  | Chunks "string list"
  | Interrupted "string list"

text \<open>How a part of the handler ends: normally, or by an exception that reaches the
  \<open>catch\<close> of the handler.\<close>

datatype outcome = Returns session | Raises session

section \<open>Generation Orchestrator\<close>

text \<open>
  \<open>JSON.parse\<close> is a parameter of the model: \<open>parse line\<close> is the parsed value, or \<open>None\<close>
  when \<open>JSON.parse\<close> throws.

  The \<open>try\<close> block that every line loop of the route runs on a candidate line. The copies
  differ in the events they report for a line that does not parse (\<open>on_throw\<close>) and for a
  value that fails the Validator (\<open>on_invalid\<close>), and in whether the unit is sanitized
  (\<open>san\<close>).
\<close>

definition handle_line ::
  "(string \<Rightarrow> jsval option) \<Rightarrow> rat \<Rightarrow> (jsval \<Rightarrow> jsval) \<Rightarrow> event list \<Rightarrow> event list \<Rightarrow>
   string \<Rightarrow> session \<Rightarrow> session" where
  "handle_line parse count san on_throw on_invalid line s =
     (case parse line of
        None \<Rightarrow> enqueue on_throw s
      | Some obj \<Rightarrow>
          if isValidQuestion obj then emit_question count (san obj) s
          else enqueue on_invalid s)"

text \<open>The flush loop: \<open>if (emitted >= count) break\<close> comes first in its body.\<close>

fun flush_lines :: "(string \<Rightarrow> jsval option) \<Rightarrow> rat \<Rightarrow> string list \<Rightarrow> session \<Rightarrow> session" where
  "flush_lines parse count [] s = s"
| "flush_lines parse count (line # rest) s =
     (if count \<le> of_nat (emitted s) then s
      else flush_lines parse count rest
             (handle_line parse count sanitizeQuestion
                [Server ''parse-error-trailing''] [Server ''invalid-trailing''] line s))"

definition flush :: "(string \<Rightarrow> jsval option) \<Rightarrow> rat \<Rightarrow> string \<Rightarrow> session \<Rightarrow> session" where
  "flush parse count buffer s =
     (if 0 < length (trim buffer) \<and> of_nat (emitted s) < count
      then flush_lines parse count (lines_of buffer) s else s)"

text \<open>The top-up loops: \<open>if (emitted >= count) break\<close> follows an accepted unit.\<close>

fun topup_lines ::
  "(string \<Rightarrow> jsval option) \<Rightarrow> rat \<Rightarrow> (jsval \<Rightarrow> jsval) \<Rightarrow> event list \<Rightarrow> event list \<Rightarrow>
   string list \<Rightarrow> session \<Rightarrow> session" where
  "topup_lines parse count san on_throw on_invalid [] s = s"
| "topup_lines parse count san on_throw on_invalid (line # rest) s =
     (case parse line of
        None \<Rightarrow> topup_lines parse count san on_throw on_invalid rest (enqueue on_throw s)
      | Some obj \<Rightarrow>
          if isValidQuestion obj then
            (let s' = emit_question count (san obj) s
             in if count \<le> of_nat (emitted s') then s'
                else topup_lines parse count san on_throw on_invalid rest s')
          else topup_lines parse count san on_throw on_invalid rest (enqueue on_invalid s))"

text \<open>
  The three rounds of bulk top-up, each nested in the \<open>if (emitted < count)\<close> that follows
  the loop of the round before. None of the calls is inside a \<open>try\<close> of its own.
\<close>

definition final_retry ::
  "(string \<Rightarrow> jsval option) \<Rightarrow> (nat \<Rightarrow> reply) \<Rightarrow> rat \<Rightarrow> session \<Rightarrow> outcome" where
  "final_retry parse up count s =
     (case generateContent up (enqueue [Server ''final-retry''] s) of
        (Throws, s') \<Rightarrow> Raises s'
      | (Text t3, s') \<Rightarrow>
          Returns (topup_lines parse count sanitizeQuestion [] [] (lines_of t3) s'))"

definition second_retry ::
  "(string \<Rightarrow> jsval option) \<Rightarrow> (nat \<Rightarrow> reply) \<Rightarrow> rat \<Rightarrow> session \<Rightarrow> outcome" where
  "second_retry parse up count s =
     (case generateContent up (enqueue [Server ''second-retry''] s) of
        (Throws, s') \<Rightarrow> Raises s'
      | (Text t2, s') \<Rightarrow>
          (let s'' = topup_lines parse count sanitizeQuestion [] [] (lines_of t2) s'
           in if of_nat (emitted s'') < count then final_retry parse up count s''
              else Returns s''))"

definition bulk_topup ::
  "(string \<Rightarrow> jsval option) \<Rightarrow> (nat \<Rightarrow> reply) \<Rightarrow> rat \<Rightarrow> session \<Rightarrow> outcome" where
  "bulk_topup parse up count s =
     (if of_nat (emitted s) < count then
        (case generateContent up (enqueue [Server ''fallback-topup''] s) of
           (Throws, s') \<Rightarrow> Raises s'
         | (Text text, s') \<Rightarrow>
             (let s'' = topup_lines parse count sanitizeQuestion
                          [Server ''parse-error-fallback''] [Server ''invalid-fallback'']
                          (lines_of text) s'
              in if of_nat (emitted s'') < count then second_retry parse up count s''
                 else Returns s''))
      else Returns s)"

subsection \<open>Single-item recovery\<close>

text \<open>\<open>.replace(/^```(?:json)?/i, '').replace(/```$/i, '').trim()\<close>\<close>

definition strip_fences :: "string \<Rightarrow> string" where
  "strip_fences s =
     (let s1 = (if take 3 s = ''```''
                then (if toLowerCase (take 4 (drop 3 s)) = ''json'' then drop 7 s else drop 3 s)
                else s);
          s2 = (if 3 \<le> length s1 \<and> drop (length s1 - 3) s1 = ''```''
                then take (length s1 - 3) s1 else s1)
      in trim s2)"

text \<open>\<open>s.toLowerCase().replace(/\s+/g, ' ').slice(0, 140)\<close>\<close>

definition normalize :: "string \<Rightarrow> string" where
  "normalize s = take 140 (squash_space (toLowerCase s))"

text \<open>\<open>candidate.question || ''\<close>, read after the Validator has found a string there.\<close>

definition stem_of :: "jsval \<Rightarrow> string" where
  "stem_of c = (case get c ''question'' of JStr s \<Rightarrow> s | _ \<Rightarrow> [])"

text \<open>
  What the loop makes of the text of one reply: the candidate it accepts, if any. The set
  \<open>existingQuestions\<close> is the list of its elements in insertion order.
\<close>

definition usable :: "(string \<Rightarrow> jsval option) \<Rightarrow> string list \<Rightarrow> string \<Rightarrow> jsval option" where
  "usable parse existing text =
     (case parse (strip_fences (trim text)) of
        None \<Rightarrow> None
      | Some c \<Rightarrow>
          if truthy c \<and> isValidQuestion c \<and> normalize (stem_of c) \<notin> set existing
          then Some c else None)"

text \<open>The synthetic unit, \<open>n\<close> being \<open>emitted\<close> after its increment.\<close>

definition synthetic :: "string \<Rightarrow> nat \<Rightarrow> jsval" where
  "synthetic topic n = JObj
     [(''question'', JStr (''Synthetic recovery question '' @ decimal n @ '' for '' @ topic @
                           '': Choose the best option.'')),
      (''multipleChoiceOptions'',
         JArr [JStr ''A. Conceptual distractor'', JStr ''B. Another distractor'',
               JStr ''C. Correct answer'', JStr ''D. Plausible but wrong'']),
      (''correctAnswer'', JStr ''C''),
      (''incorrectExplanations'',
         JObj [(''A'', JStr ''A does not address the core requirement.''),
               (''B'', JStr ''B is irrelevant to the topic focus.''),
               (''C'', JStr ''C best fits the topic context.''),
               (''D'', JStr ''D introduces an unsupported idea.'')]),
      (''correctExplanation'',
         JStr ''C directly satisfies the constraints of the topic while others do not.'')]"

definition filler :: "string \<Rightarrow> rat \<Rightarrow> session \<Rightarrow> session" where
  "filler topic count s =
     (if of_nat (emitted s) < count
      then emit_question count (sanitizeQuestion (synthetic topic (emitted s + 1))) s
      else s)"

text \<open>How one pass of the loop filled its slot: with a candidate of the model (kept as
  the model gave it) or with the synthetic unit.\<close>

datatype slot = FromModel jsval | Filler

definition accept_single ::
  "rat \<Rightarrow> jsval \<Rightarrow> session \<Rightarrow> string list \<Rightarrow> session \<times> string list \<times> slot" where
  "accept_single count c s existing =
     (emit_question count (sanitizeQuestion c) s, existing @ [normalize (stem_of c)], FromModel c)"

text \<open>
  One pass of \<open>while (emitted < count)\<close>. An exception of either call leaves the outer
  \<open>try\<close> through its empty \<open>catch\<close>, so the pass goes on to the synthetic unit.
\<close>

definition single_pass ::
  "(string \<Rightarrow> jsval option) \<Rightarrow> (nat \<Rightarrow> reply) \<Rightarrow> string \<Rightarrow> rat \<Rightarrow> session \<Rightarrow> string list \<Rightarrow>
   session \<times> string list \<times> slot" where
  "single_pass parse up topic count s existing =
     (case generateContent up s of
        (Throws, s1) \<Rightarrow> (filler topic count s1, existing, Filler)
      | (Text t1, s1) \<Rightarrow>
          (case usable parse existing t1 of
             Some c \<Rightarrow> accept_single count c s1 existing
           | None \<Rightarrow>
               (case generateContent up s1 of
                  (Throws, s2) \<Rightarrow> (filler topic count s2, existing, Filler)
                | (Text t2, s2) \<Rightarrow>
                    (case usable parse existing t2 of
                       Some c \<Rightarrow> accept_single count c s2 existing
                     | None \<Rightarrow> (filler topic count s2, existing, Filler)))))"

lemma emitted_emit_question [simp]: "emitted (emit_question count u s) = Suc (emitted s)"
  by (simp add: emit_question_def enqueue_def)

lemma emitted_filler:
  "of_nat (emitted s) < count \<Longrightarrow> emitted (filler topic count s) = Suc (emitted s)"
  by (simp add: filler_def)

lemma generateContent_emitted:
  "generateContent up s = (r, s1) \<Longrightarrow> emitted s1 = emitted s"
  by (auto simp: generateContent_def)

lemma single_pass_emitted:
  assumes lt: "of_nat (emitted s) < count"
    and sp: "single_pass parse up topic count s existing = (s', r)"
  shows "emitted s' = Suc (emitted s)"
proof -
  obtain r1 s1 where g1: "generateContent up s = (r1, s1)"
    by (cases "generateContent up s")
  obtain r2 s2 where g2: "generateContent up s1 = (r2, s2)"
    by (cases "generateContent up s1")
  have e1: "emitted s1 = emitted s"
    using g1 by (rule generateContent_emitted)
  have e2: "emitted s2 = emitted s"
    using generateContent_emitted [OF g2] e1 by simp
  have f1: "emitted (filler topic count s1) = Suc (emitted s)"
    using emitted_filler [of s1 count topic] lt e1 by simp
  have f2: "emitted (filler topic count s2) = Suc (emitted s)"
    using emitted_filler [of s2 count topic] lt e2 by simp
  show ?thesis
  proof (cases r1)
    case Throws
    with sp g1 f1 show ?thesis
      by (auto simp: single_pass_def)
  next
    case (Text t1)
    show ?thesis
    proof (cases "usable parse existing t1")
      case (Some c)
      with sp g1 Text e1 show ?thesis
        by (auto simp: single_pass_def accept_single_def)
    next
      case None
      note n1 = this
      show ?thesis
      proof (cases r2)
        case Throws
        with sp g1 g2 Text n1 f2 show ?thesis
          by (auto simp: single_pass_def)
      next
        case (Text t2)
        with sp g1 g2 \<open>r1 = Text t1\<close> n1 f2 e2 show ?thesis
          by (cases "usable parse existing t2") (auto simp: single_pass_def accept_single_def)
      qed
    qed
  qed
qed

text \<open>
  The loop, with the record of its passes: the third component records, pass by pass, how
  the slot was filled. The source keeps no such record; it is there to state properties.
\<close>

function single_loop ::
  "(string \<Rightarrow> jsval option) \<Rightarrow> (nat \<Rightarrow> reply) \<Rightarrow> string \<Rightarrow> rat \<Rightarrow> session \<Rightarrow> string list \<Rightarrow>
   slot list \<Rightarrow> session \<times> string list \<times> slot list" where
  "single_loop parse up topic count s existing filled =
     (if of_nat (emitted s) < count then
        (case single_pass parse up topic count s existing of
           (s', existing', sl) \<Rightarrow> single_loop parse up topic count s' existing' (filled @ [sl]))
      else (s, existing, filled))"
  by pat_completeness auto
termination
proof (relation "measure (\<lambda>(parse, up, topic, count, s, existing, filled). nat \<lceil>count\<rceil> - emitted s)",
    goal_cases)
  case (2 parse up topic count s existing filled s' y existing' sl)
  then have "single_pass parse up topic count s existing = (s', y)"
    by simp
  with 2(1) have e: "emitted s' = Suc (emitted s)"
    by (rule single_pass_emitted)
  from 2(1) have "int (emitted s) < \<lceil>count\<rceil>"
    by (simp add: less_ceiling_iff)
  then have "emitted s < nat \<lceil>count\<rceil>"
    by (simp add: zless_nat_eq_int_zless)
  with e show ?case
    by simp
qed simp

declare single_loop.simps [simp del]

definition single_recovery ::
  "(string \<Rightarrow> jsval option) \<Rightarrow> (nat \<Rightarrow> reply) \<Rightarrow> string \<Rightarrow> rat \<Rightarrow> session \<Rightarrow> session" where
  "single_recovery parse up topic count s =
     (if of_nat (emitted s) < count
      then fst (single_loop parse up topic count
                  (enqueue [Server ''final-single-regeneration''] s) [] [])
      else s)"

subsection \<open>The streaming route\<close>

text \<open>The state when the primary call is made: the two events already enqueued.\<close>

definition start :: session where
  "start = \<lparr>emitted = 0, out = [Server ''received'', Server ''prompt-built''], calls = 0\<rparr>"

definition stream_path ::
  "(string \<Rightarrow> jsval option) \<Rightarrow> (nat \<Rightarrow> reply) \<Rightarrow> string \<Rightarrow> rat \<Rightarrow> string list \<Rightarrow> bool \<Rightarrow> outcome"
where
  "stream_path parse up topic count chunks interrupted =
     (case feed (handle_line parse count sanitizeQuestion [] [Server ''invalid''])
             (enqueue [Server ''chunk'']) chunks [] (enqueue [Server ''stream-open''] start) of
        (buffer, s1) \<Rightarrow>
          if interrupted then Raises s1
          else
            (case bulk_topup parse up count (flush parse count buffer s1) of
               Raises s3 \<Rightarrow> Raises s3
             | Returns s3 \<Rightarrow>
                 Returns (enqueue [Done] (single_recovery parse up topic count s3))))"

text \<open>The path taken when there is no stream: one call, one top-up, no single-item
  recovery; the units are enqueued as parsed.\<close>

definition fallback_path ::
  "(string \<Rightarrow> jsval option) \<Rightarrow> (nat \<Rightarrow> reply) \<Rightarrow> rat \<Rightarrow> outcome" where
  "fallback_path parse up count =
     (case generateContent up (enqueue [Server ''fallback''] start) of
        (Throws, s1) \<Rightarrow> Raises s1
      | (Text text, s1) \<Rightarrow>
          (let s2 = fold (handle_line parse count (\<lambda>obj. obj) [] []) (lines_of text) s1
           in if of_nat (emitted s2) < count then
                (case generateContent up (enqueue [Server ''fallback-topup''] s2) of
                   (Throws, s3) \<Rightarrow> Raises s3
                 | (Text t2, s3) \<Rightarrow>
                     Returns (enqueue [Done]
                       (topup_lines parse count (\<lambda>obj. obj) [] [] (lines_of t2) s3)))
              else Returns (enqueue [Done] s2)))"

text \<open>
  The body of the response of the streaming route for a request that passed the checks
  of the API key, \<open>section\<close> and \<open>topic\<close>. The \<open>catch\<close> of the handler enqueues the error
  event and fails the stream.
\<close>

definition POST_stream ::
  "(string \<Rightarrow> jsval option) \<Rightarrow> primary \<Rightarrow> (nat \<Rightarrow> reply) \<Rightarrow> string \<Rightarrow> rat \<Rightarrow> event list" where
  "POST_stream parse prim up topic count =
     (case (case prim of
              Unreachable \<Rightarrow> Raises start
            | Unavailable \<Rightarrow> fallback_path parse up count
            | Chunks chunks \<Rightarrow> stream_path parse up topic count chunks False
            | Interrupted chunks \<Rightarrow> stream_path parse up topic count chunks True) of
        Returns s \<Rightarrow> out s
      | Raises s \<Rightarrow> out s @ [Error])"

text \<open>The question events of a response: index and unit.\<close>

fun question_events :: "event list \<Rightarrow> (nat \<times> jsval) list" where
  "question_events [] = []"
| "question_events (Question i u # es) = (i, u) # question_events es"
| "question_events (e # es) = question_events es"

subsection \<open>The candidate lines of the primary stream\<close>

text \<open>
  The lines that the primary stream hands to \<open>JSON.parse\<close> are not a variable of the route.
  To observe them, a handler is run together with a record of the lines it was given.
\<close>

definition logged ::
  "(string \<Rightarrow> 's \<Rightarrow> 's) \<Rightarrow> string \<Rightarrow> 's \<times> string list \<Rightarrow> 's \<times> string list" where
  "logged h line = (\<lambda>(st, ls). (h line st, ls @ [line]))"

text \<open>
  The lines that the flush loop hands to \<open>JSON.parse\<close>: those of \<open>flush_lines\<close>, which stops
  at \<open>if (emitted >= count) break\<close>.
\<close>

fun flush_candidates ::
  "(string \<Rightarrow> jsval option) \<Rightarrow> rat \<Rightarrow> string list \<Rightarrow> session \<Rightarrow> string list" where
  "flush_candidates parse count [] s = []"
| "flush_candidates parse count (line # rest) s =
     (if count \<le> of_nat (emitted s) then []
      else line # flush_candidates parse count rest
             (handle_line parse count sanitizeQuestion
                [Server ''parse-error-trailing''] [Server ''invalid-trailing''] line s))"

text \<open>
  The candidate lines of a stream, in order: the lines handled by the loop over the chunks
  as \<open>stream_path\<close> runs it, then those of the flush, which is entered under the guard
  \<open>buffer.trim().length > 0 && emitted < count\<close>.
\<close>

definition stream_candidates ::
  "(string \<Rightarrow> jsval option) \<Rightarrow> rat \<Rightarrow> string list \<Rightarrow> string list" where
  "stream_candidates parse count chunks =
     (case feed (logged (handle_line parse count sanitizeQuestion [] [Server ''invalid'']))
             (\<lambda>(s, ls). (enqueue [Server ''chunk''] s, ls)) chunks []
             (enqueue [Server ''stream-open''] start, []) of
        (buffer, s1, ls) \<Rightarrow>
          ls @ (if 0 < length (trim buffer) \<and> of_nat (emitted s1) < count
                then flush_candidates parse count (lines_of buffer) s1 else []))"

section \<open>The non-streaming route\<close>






section \<open>Sample inputs\<close>

text \<open>A unit that passes the Validator, with the placeholder word in its stem.\<close>

definition sample_fields :: "(string \<times> jsval) list" where
  "sample_fields =
     [(''question'', JStr ''What  blank is 2 + 2?''),
      (''multipleChoiceOptions'', JArr [JStr ''A. 1'', JStr ''B. 2'', JStr ''C. 3'', JStr ''D. 4'']),
      (''correctAnswer'', JStr ''D''),
      (''incorrectExplanations'',
         JObj [(''A'', JStr ''too small''), (''B'', JStr ''too small''),
               (''C'', JStr ''too small''), (''D'', JStr ''correct'')]),
      (''correctExplanation'', JStr ''2 + 2 = 4'')]"

definition sample_unit :: jsval where
  "sample_unit = JObj sample_fields"

text \<open>The same unit with a rationale of one space.\<close>

definition blank_rationale_unit :: jsval where
  "blank_rationale_unit = JObj (AList.update ''correctExplanation'' (JStr '' '') sample_fields)"

text \<open>A second valid unit.\<close>

definition other_unit :: jsval where
  "other_unit = JObj
     [(''question'', JStr ''What is 3 + 3?''),
      (''multipleChoiceOptions'', JArr [JStr ''A. 6'', JStr ''B. 7'', JStr ''C. 8'', JStr ''D. 9'']),
      (''correctAnswer'', JStr ''A''),
      (''incorrectExplanations'',
         JObj [(''A'', JStr ''correct''), (''B'', JStr ''too large''),
               (''C'', JStr ''too large''), (''D'', JStr ''too large'')]),
      (''correctExplanation'', JStr ''3 + 3 = 6'')]"

text \<open>The two units as the model writes them, one minified JSON object on a line.\<close>

definition sample_line :: string where
  "sample_line = ''{\"question\":\"What  blank is 2 + 2?\",\"multipleChoiceOptions\":[\"A. 1\",\"B. 2\",\"C. 3\",\"D. 4\"],\"correctAnswer\":\"D\",\"incorrectExplanations\":{\"A\":\"too small\",\"B\":\"too small\",\"C\":\"too small\",\"D\":\"correct\"},\"correctExplanation\":\"2 + 2 = 4\"}''"

definition other_line :: string where
  "other_line = ''{\"question\":\"What is 3 + 3?\",\"multipleChoiceOptions\":[\"A. 6\",\"B. 7\",\"C. 8\",\"D. 9\"],\"correctAnswer\":\"A\",\"incorrectExplanations\":{\"A\":\"correct\",\"B\":\"too large\",\"C\":\"too large\",\"D\":\"too large\"},\"correctExplanation\":\"3 + 3 = 6\"}''"

text \<open>
  \<open>JSON.parse\<close> on the texts that the sample runs hand to it: the two lines parse to the
  two units, and the text \<open>{"questions":[]}\<close> to an object with an empty array.
\<close>

definition sample_parse :: "string \<Rightarrow> jsval option" where
  "sample_parse = map_of
     [(sample_line, sample_unit), (other_line, other_unit),
      (''{\"questions\":[]}'', JObj [(''questions'', JArr [])])]"




text \<open>An upstream whose first three non-streaming calls return an empty text and whose
  later calls throw.\<close>

definition flaky_upstream :: "nat \<Rightarrow> reply" where
  "flaky_upstream n = (if n < 3 then Text [] else Throws)"

text \<open>An upstream that returns the first sample line whenever it is called.\<close>

definition repeating_upstream :: "nat \<Rightarrow> reply" where
  "repeating_upstream n = Text sample_line"

text \<open>An upstream whose first three non-streaming calls, those of the bulk top-up, return an
  empty text and whose later calls return the first sample line.\<close>

definition echo_upstream :: "nat \<Rightarrow> reply" where
  "echo_upstream n = (if n < 3 then Text [] else Text sample_line)"

text \<open>An upstream whose first \<open>k\<close> non-streaming calls return an empty text and whose later
  calls throw.\<close>

definition failing_after :: "nat \<Rightarrow> nat \<Rightarrow> reply" where
  "failing_after k n = (if n < k then Text [] else Throws)"

section \<open>Auxiliary predicates\<close>

text \<open>No match of \<open>/\bblank\b/i\<close> in the rest of a subject, \<open>pw\<close> as in \<open>remove_blank\<close>.\<close>

fun no_blank :: "bool \<Rightarrow> string \<Rightarrow> bool" where
  "no_blank pw [] \<longleftrightarrow> True"
| "no_blank pw (c # cs) \<longleftrightarrow> \<not> (\<not> pw \<and> blank_at (c # cs)) \<and> no_blank (is_word c) cs"

text \<open>No two adjacent white space code units.\<close>

fun no_runs :: "string \<Rightarrow> bool" where
  "no_runs (c # d # ds) \<longleftrightarrow> \<not> (is_space c \<and> is_space d) \<and> no_runs (d # ds)"
| "no_runs _ \<longleftrightarrow> True"

text \<open>Events that are neither a question nor the end of a response.\<close>

definition quiet :: "event list \<Rightarrow> bool" where
  "quiet es \<longleftrightarrow> question_events es = [] \<and> Error \<notin> set es \<and> Done \<notin> set es"

text \<open>
  The question events enqueued so far are numbered 1 to \<open>emitted\<close> in order, and the response
  has not ended.
\<close>

definition well_numbered :: "session \<Rightarrow> bool" where
  "well_numbered s \<longleftrightarrow>
     map fst (question_events (out s)) = [1..<Suc (emitted s)] \<and>
     Error \<notin> set (out s) \<and> Done \<notin> set (out s)"

text \<open>The candidates of the model among the slots of single-item recovery.\<close>

fun candidates_of :: "slot list \<Rightarrow> jsval list" where
  "candidates_of [] = []"
| "candidates_of (FromModel c # rest) = c # candidates_of rest"
| "candidates_of (Filler # rest) = candidates_of rest"

text \<open>The question events of the slots, the first of them numbered \<open>n + 1\<close>.\<close>

fun slot_events :: "string \<Rightarrow> nat \<Rightarrow> slot list \<Rightarrow> (nat \<times> jsval) list" where
  "slot_events topic n [] = []"
| "slot_events topic n (FromModel c # rest) =
     (Suc n, sanitizeQuestion c) # slot_events topic (Suc n) rest"
| "slot_events topic n (Filler # rest) =
     (Suc n, sanitizeQuestion (synthetic topic (Suc n))) # slot_events topic (Suc n) rest"

text \<open>A line that parses to a value which passes the Validator.\<close>

definition accepted :: "(string \<Rightarrow> jsval option) \<Rightarrow> string \<Rightarrow> bool" where
  "accepted parse line = (case parse line of None \<Rightarrow> False | Some obj \<Rightarrow> isValidQuestion obj)"

text \<open>The units that the primary stream and its flush enqueue for a list of lines.\<close>

fun units_of :: "(string \<Rightarrow> jsval option) \<Rightarrow> string list \<Rightarrow> jsval list" where
  "units_of parse [] = []"
| "units_of parse (line # rest) =
     (case parse line of
        None \<Rightarrow> units_of parse rest
      | Some obj \<Rightarrow>
          if isValidQuestion obj then sanitizeQuestion obj # units_of parse rest
          else units_of parse rest)"

definition numbered :: "jsval list \<Rightarrow> (nat \<times> jsval) list" where
  "numbered us = enumerate 1 us"

text \<open>The question events of a session are the units of the lines, numbered from 1.\<close>

definition delivers :: "(string \<Rightarrow> jsval option) \<Rightarrow> session \<Rightarrow> string list \<Rightarrow> bool" where
  "delivers parse s ls \<longleftrightarrow>
     emitted s = length (units_of parse ls) \<and>
     question_events (out s) = numbered (units_of parse ls)"

section \<open>Properties of the string functions\<close>

subsection \<open>trim\<close>

lemma dropWhile_trim_decomp:
  "\<exists>b. dropWhile is_space s = trim s @ b \<and> (\<forall>c\<in>set b. is_space c)"
proof -
  let ?t = "dropWhile is_space s"
  have "rev (takeWhile is_space (rev ?t) @ dropWhile is_space (rev ?t)) = ?t"
    by (simp only: takeWhile_dropWhile_id rev_rev_ident)
  then have "?t = trim s @ rev (takeWhile is_space (rev ?t))"
    by (simp only: rev_append trim_def)
  moreover have "\<forall>c\<in>set (rev (takeWhile is_space (rev ?t))). is_space c"
    by (auto dest: set_takeWhileD)
  ultimately show ?thesis by blast
qed

lemma trim_decomp:
  "\<exists>a b. s = a @ trim s @ b \<and> (\<forall>c\<in>set a. is_space c) \<and> (\<forall>c\<in>set b. is_space c)"
proof -
  obtain b where b: "dropWhile is_space s = trim s @ b" "\<forall>c\<in>set b. is_space c"
    using dropWhile_trim_decomp by blast
  have "\<forall>c\<in>set (takeWhile is_space s). is_space c"
    by (auto dest: set_takeWhileD)
  moreover have "s = takeWhile is_space s @ dropWhile is_space s"
    by simp
  then have "s = takeWhile is_space s @ trim s @ b"
    by (simp only: b(1))
  ultimately show ?thesis using b(2) by blast
qed

lemma head_dropWhile_space:
  "case dropWhile is_space s of [] \<Rightarrow> True | e # _ \<Rightarrow> \<not> is_space e"
  by (induction s) auto

lemma trim_head: "trim s = c # cs \<Longrightarrow> \<not> is_space c"
proof -
  assume a: "trim s = c # cs"
  obtain b where "dropWhile is_space s = trim s @ b"
    using dropWhile_trim_decomp by blast
  with a have "dropWhile is_space s = c # (cs @ b)" by simp
  with head_dropWhile_space [of s] show ?thesis by simp
qed

lemma dropWhile_trim: "dropWhile is_space (trim s) = trim s"
  by (cases "trim s") (auto dest: trim_head)

lemma trim_idem: "trim (trim s) = trim s"
proof -
  have "rev (trim s) = dropWhile is_space (rev (dropWhile is_space s))"
    by (simp add: trim_def)
  then have "dropWhile is_space (rev (trim s)) = rev (trim s)"
    by (simp add: dropWhile_idem)
  then have "rev (dropWhile is_space (rev (dropWhile is_space (trim s)))) = trim s"
    by (simp add: dropWhile_trim)
  then show ?thesis
    unfolding trim_def [of "trim s"] .
qed

subsection \<open>Runs of white space\<close>

lemma collapse_runs_head:
  "(case s of [] \<Rightarrow> True | e # _ \<Rightarrow> \<not> is_space e) \<Longrightarrow>
   (case collapse_runs s of [] \<Rightarrow> True | e # _ \<Rightarrow> \<not> is_space e)"
  by (cases s rule: collapse_runs.cases) auto

lemma no_runs_Cons:
  "no_runs (c # s) \<longleftrightarrow>
     (case s of [] \<Rightarrow> True | d # _ \<Rightarrow> \<not> (is_space c \<and> is_space d)) \<and> no_runs s"
  by (cases s) auto

lemma no_runs_ConsI:
  "(case s of [] \<Rightarrow> True | e # _ \<Rightarrow> \<not> is_space e) \<Longrightarrow> no_runs s \<Longrightarrow> no_runs (c # s)"
  by (cases s) auto

lemma no_runs_ConsI2: "\<not> is_space c \<Longrightarrow> no_runs s \<Longrightarrow> no_runs (c # s)"
  by (cases s) auto

lemma no_runs_collapse: "no_runs (collapse_runs s)"
proof (induction s rule: collapse_runs.induct)
  case (3 c d ds)
  show ?case
  proof (cases "is_space c \<and> is_space d")
    case True
    then have ih: "no_runs (collapse_runs (dropWhile is_space ds))"
      by (rule "3.IH"(1))
    have "no_runs (CHR '' '' # collapse_runs (dropWhile is_space ds))"
      by (rule no_runs_ConsI [OF collapse_runs_head [OF head_dropWhile_space] ih])
    with True show ?thesis by simp
  next
    case False
    then have ih: "no_runs (collapse_runs (d # ds))"
      by (rule "3.IH"(2))
    have "no_runs (c # collapse_runs (d # ds))"
    proof (cases "is_space c")
      case True
      with False have "\<not> is_space d" by simp
      then have "case collapse_runs (d # ds) of [] \<Rightarrow> True | e # _ \<Rightarrow> \<not> is_space e"
        using collapse_runs_head [of "d # ds"] by simp
      then show ?thesis using ih by (rule no_runs_ConsI)
    next
      case False
      then show ?thesis using ih by (rule no_runs_ConsI2)
    qed
    with False show ?thesis by auto
  qed
qed simp_all

lemma collapse_runs_fix: "no_runs s \<Longrightarrow> collapse_runs s = s"
proof (induction s rule: collapse_runs.induct)
  case (3 c d ds)
  from "3.prems" have n: "\<not> (is_space c \<and> is_space d)" and r: "no_runs (d # ds)"
    by simp_all
  from "3.IH"(2) [OF n r] n show ?case
    by auto
qed simp_all

lemma no_runs_append_left: "no_runs (xs @ ys) \<Longrightarrow> no_runs xs"
  by (induction xs rule: no_runs.induct) simp_all

lemma no_runs_append_right: "no_runs (xs @ ys) \<Longrightarrow> no_runs ys"
proof (induction xs)
  case (Cons x xs)
  then have "no_runs (x # (xs @ ys))" by simp
  then have "no_runs (xs @ ys)" by (simp only: no_runs_Cons)
  then show ?case by (rule Cons.IH)
qed simp

lemma no_runs_trim: "no_runs s \<Longrightarrow> no_runs (trim s)"
proof -
  assume a: "no_runs s"
  obtain a b where "s = a @ trim s @ b"
    using trim_decomp [of s] by blast
  with a have "no_runs (a @ trim s @ b)" by simp
  then have "no_runs (trim s @ b)" by (rule no_runs_append_right)
  then show ?thesis by (rule no_runs_append_left)
qed

subsection \<open>Whole-word matches of the placeholder\<close>

lemma space_not_word: "is_space c \<Longrightarrow> \<not> is_word c"
  by (auto simp: is_space_def is_word_def)

lemma blank_letters_word:
  "is_word CHR ''b''" "is_word CHR ''B''" "is_word CHR ''l''" "is_word CHR ''L''"
  "is_word CHR ''a''" "is_word CHR ''A''" "is_word CHR ''n''" "is_word CHR ''N''"
  "is_word CHR ''k''" "is_word CHR ''K''"
  by (simp_all add: is_word_def)

lemma blank_at_head: "blank_at (c # cs) \<Longrightarrow> is_word c"
  by (cases "c # cs" rule: blank_at.cases) (auto simp: blank_letters_word)

lemma takeWhile_short: "length s < 5 \<Longrightarrow> \<not> blank_at (takeWhile P s)"
proof -
  assume "length s < 5"
  then have "length (takeWhile P s) < 5"
    using length_takeWhile_le [of P s] by simp
  then show ?thesis
    by (cases "takeWhile P s" rule: blank_at.cases) simp_all
qed

lemma blank_at_takeWhile: "blank_at s \<longleftrightarrow> blank_at (takeWhile is_word s)"
proof (cases s rule: blank_at.cases)
  case (1 c1 c2 c3 c4 c5 rest)
  show ?thesis
  proof (cases "is_word c1 \<and> is_word c2 \<and> is_word c3 \<and> is_word c4 \<and> is_word c5")
    case True
    then have tw: "takeWhile is_word s = c1 # c2 # c3 # c4 # c5 # takeWhile is_word rest"
      by (simp add: 1)
    have "(case rest of [] \<Rightarrow> True | d # _ \<Rightarrow> \<not> is_word d) \<longleftrightarrow>
          (case takeWhile is_word rest of [] \<Rightarrow> True | d # _ \<Rightarrow> \<not> is_word d)"
      by (cases rest) auto
    then show ?thesis
      unfolding tw unfolding 1 by simp
  next
    case False
    then have "\<not> blank_at s"
      unfolding 1 by (auto simp: blank_letters_word)
    moreover from False have "length (takeWhile is_word s) < 5"
      unfolding 1 by auto
    then have "\<not> blank_at (takeWhile is_word s)"
      by (cases "takeWhile is_word s" rule: blank_at.cases) simp_all
    ultimately show ?thesis by simp
  qed
qed (simp_all add: takeWhile_short)

lemma blank_at_cong:
  "takeWhile is_word s = takeWhile is_word t \<Longrightarrow> blank_at s \<longleftrightarrow> blank_at t"
  using blank_at_takeWhile [of s] blank_at_takeWhile [of t] by simp

lemma takeWhile_word_remove:
  "takeWhile is_word (remove_blank True cs) = takeWhile is_word cs"
  by (induction cs) simp_all

lemma blank_char_not_word: "\<not> is_word CHR '' ''"
  by (simp add: is_word_def)

lemma takeWhile_word_collapse:
  "takeWhile is_word (collapse_runs s) = takeWhile is_word s"
  by (induction s rule: collapse_runs.induct) (auto simp: space_not_word blank_char_not_word)

lemma takeWhile_word_append:
  "\<forall>c\<in>set b. \<not> is_word c \<Longrightarrow> takeWhile is_word (xs @ b) = takeWhile is_word xs"
  by (induction xs) (simp_all add: takeWhile_eq_Nil_iff, cases b, simp_all)


text \<open>A text without a match is left as it is, and removal leaves no match.\<close>

lemma remove_blank_fix: "no_blank pw s \<Longrightarrow> remove_blank pw s = s"
  by (induction pw s rule: remove_blank.induct) auto

lemma no_blank_nonword: "\<not> is_word d \<Longrightarrow> no_blank pw (d # t) \<longleftrightarrow> no_blank False t"
  using blank_at_head [of d t] by auto

lemma remove_blank_nonword:
  "\<not> is_word d \<Longrightarrow> remove_blank pw (d # t) = d # remove_blank False t"
  using blank_at_head [of d t] by auto

lemma no_blank_remove: "no_blank pw (remove_blank pw s)"
proof (induction pw s rule: remove_blank.induct)
  case (2 pw c cs)
  show ?case
  proof (cases "\<not> pw \<and> blank_at (c # cs)")
    case True
    then obtain c2 c3 c4 c5 rest where cs: "cs = c2 # c3 # c4 # c5 # rest"
      and rest: "case rest of [] \<Rightarrow> True | d # _ \<Rightarrow> \<not> is_word d"
      by (cases "c # cs" rule: blank_at.cases) auto
    from True have ih: "no_blank True (remove_blank True (drop 4 cs))"
      by (rule "2.IH"(1))
    have "no_blank False (remove_blank True rest)"
    proof (cases rest)
      case Nil
      then show ?thesis by simp
    next
      case (Cons d t)
      with rest have d: "\<not> is_word d" by simp
      from ih have "no_blank True (remove_blank True (d # t))"
        by (simp add: cs Cons)
      then show ?thesis
        unfolding Cons remove_blank_nonword [OF d] no_blank_nonword [OF d] .
    qed
    with True show ?thesis
      by (simp add: cs)
  next
    case False
    then have ih: "no_blank (is_word c) (remove_blank (is_word c) cs)"
      by (rule "2.IH"(2))
    have "\<not> (\<not> pw \<and> blank_at (c # remove_blank (is_word c) cs))"
    proof
      assume a: "\<not> pw \<and> blank_at (c # remove_blank (is_word c) cs)"
      then have w: "is_word c" by (auto dest: blank_at_head)
      have "takeWhile is_word (c # remove_blank True cs) = takeWhile is_word (c # cs)"
        by (simp add: takeWhile_word_remove)
      then have "blank_at (c # remove_blank True cs) \<longleftrightarrow> blank_at (c # cs)"
        by (rule blank_at_cong)
      with a w False show False by simp
    qed
    with False ih show ?thesis by auto
  qed
qed simp

lemma no_blank_dropWhile: "no_blank False s \<Longrightarrow> no_blank False (dropWhile is_space s)"
  by (induction s) (auto simp: space_not_word)

lemma no_blank_collapse: "no_blank pw s \<Longrightarrow> no_blank pw (collapse_runs s)"
proof (induction s arbitrary: pw rule: collapse_runs.induct)
  case (3 c d ds)
  show ?case
  proof (cases "is_space c \<and> is_space d")
    case True
    then have c: "\<not> is_word c" and d: "\<not> is_word d"
      by (simp_all add: space_not_word)
    from "3.prems" have "no_blank False ds"
      unfolding no_blank_nonword [OF c] no_blank_nonword [OF d] .
    then have "no_blank False (dropWhile is_space ds)"
      by (rule no_blank_dropWhile)
    then have "no_blank False (collapse_runs (dropWhile is_space ds))"
      by (rule "3.IH"(1) [OF True])
    then have "no_blank pw (CHR '' '' # collapse_runs (dropWhile is_space ds))"
      unfolding no_blank_nonword [OF blank_char_not_word] .
    with True show ?thesis by simp
  next
    case False
    from "3.prems" have b: "\<not> (\<not> pw \<and> blank_at (c # d # ds))"
      and r: "no_blank (is_word c) (d # ds)"
      by simp_all
    have ih: "no_blank (is_word c) (collapse_runs (d # ds))"
      by (rule "3.IH"(2) [OF False r])
    have "takeWhile is_word (c # collapse_runs (d # ds)) = takeWhile is_word (c # d # ds)"
      by (simp add: takeWhile_word_collapse)
    then have "blank_at (c # collapse_runs (d # ds)) \<longleftrightarrow> blank_at (c # d # ds)"
      by (rule blank_at_cong)
    with b ih have "no_blank pw (c # collapse_runs (d # ds))"
      by simp
    with False show ?thesis by auto
  qed
qed simp_all

lemma no_blank_drop_spaces:
  "\<forall>c\<in>set a. is_space c \<Longrightarrow> no_blank False (a @ x) \<Longrightarrow> no_blank False x"
  by (induction a) (auto simp: space_not_word)

lemma no_blank_butlast_spaces:
  "\<forall>c\<in>set b. is_space c \<Longrightarrow> no_blank pw (x @ b) \<Longrightarrow> no_blank pw x"
proof (induction x arbitrary: pw)
  case (Cons c x)
  from Cons.prems(1) have nw: "\<forall>c\<in>set b. \<not> is_word c"
    by (auto simp: space_not_word)
  have "takeWhile is_word (c # x @ b) = takeWhile is_word (c # x)"
    by (simp add: takeWhile_word_append [OF nw])
  then have "blank_at (c # x @ b) \<longleftrightarrow> blank_at (c # x)"
    by (rule blank_at_cong)
  moreover from Cons.prems(2) have "\<not> (\<not> pw \<and> blank_at (c # x @ b))"
    and "no_blank (is_word c) (x @ b)"
    by simp_all
  ultimately show ?case
    using Cons.IH [OF Cons.prems(1)] by simp
qed simp

lemma no_blank_trim: "no_blank False s \<Longrightarrow> no_blank False (trim s)"
proof -
  assume s: "no_blank False s"
  obtain a b where d: "s = a @ trim s @ b" and a: "\<forall>c\<in>set a. is_space c"
    and b: "\<forall>c\<in>set b. is_space c"
    using trim_decomp [of s] by blast
  from s d have "no_blank False (a @ trim s @ b)" by simp
  then have "no_blank False (trim s @ b)" by (rule no_blank_drop_spaces [OF a])
  then show ?thesis by (rule no_blank_butlast_spaces [OF b])
qed

subsection \<open>The helper clean\<close>

lemma clean_idem: "clean (clean s) = clean s"
proof -
  have "no_blank False (clean s)"
    unfolding clean_def by (intro no_blank_trim no_blank_collapse no_blank_remove)
  then have 1: "remove_blank False (clean s) = clean s"
    by (rule remove_blank_fix)
  have "no_runs (clean s)"
    unfolding clean_def by (intro no_runs_trim no_runs_collapse)
  then have 2: "collapse_runs (clean s) = clean s"
    by (rule collapse_runs_fix)
  have 3: "trim (clean s) = clean s"
    unfolding clean_def by (rule trim_idem)
  show ?thesis
    unfolding clean_def [of "clean s"] 1 2 3 ..
qed

section \<open>Properties of the Validator\<close>

lemma if_False_else: "(if P then False else Q) \<longleftrightarrow> \<not> P \<and> Q"
  by simp

lemma stem_check:
  "\<not> (case v of JStr s \<Rightarrow> length (trim s) < 5 | _ \<Rightarrow> True) \<longleftrightarrow>
   (case v of JStr s \<Rightarrow> 5 \<le> length (trim s) | _ \<Rightarrow> False)"
  by (cases v) auto

lemma options_check:
  "\<not> (case v of JArr xs \<Rightarrow> length xs \<noteq> 4 | _ \<Rightarrow> True) \<and>
   (case v of JArr xs \<Rightarrow> list_all nonblank_string xs | _ \<Rightarrow> False) \<longleftrightarrow>
   (case v of JArr xs \<Rightarrow> length xs = 4 \<and> list_all nonblank_string xs | _ \<Rightarrow> False)"
  by (cases v) auto

lemma explanations_check:
  "(let ie = (if truthy e then e else JObj [])
    in \<not> (\<not> truthy ie \<or> \<not> is_object ie) \<and> list_all (\<lambda>k. nonblank_string (get ie k)) labels) \<longleftrightarrow>
   (case e of JObj kvs \<Rightarrow> list_all (\<lambda>k. nonblank_string (get (JObj kvs) k)) labels | _ \<Rightarrow> False)"
  by (cases e) (simp_all add: labels_def nonblank_string_def)

lemma isValidQuestion_conj:
  "isValidQuestion q \<longleftrightarrow>
     (truthy q \<and> is_object q) \<and>
     \<not> (case get q ''question'' of JStr s \<Rightarrow> length (trim s) < 5 | _ \<Rightarrow> True) \<and>
     (\<not> (case get q ''multipleChoiceOptions'' of JArr xs \<Rightarrow> length xs \<noteq> 4 | _ \<Rightarrow> True) \<and>
     (case get q ''multipleChoiceOptions'' of JArr xs \<Rightarrow> list_all nonblank_string xs | _ \<Rightarrow> False)) \<and>
     get q ''correctAnswer'' \<in> set (map JStr labels) \<and>
     (let ie = (if truthy (get q ''incorrectExplanations'')
                then get q ''incorrectExplanations'' else JObj [])
      in \<not> (\<not> truthy ie \<or> \<not> is_object ie) \<and> list_all (\<lambda>k. nonblank_string (get ie k)) labels) \<and>
     nonblank_string (get q ''correctExplanation'')"
  unfolding isValidQuestion_def Let_def if_False_else
  by (simp only: de_Morgan_disj not_not conj_assoc simp_thms)

lemma validator_iff_obj:
  "isValidQuestion (JObj kvs) \<longleftrightarrow> spec_accepts_trimmed (JObj kvs)"
  unfolding isValidQuestion_conj spec_accepts_trimmed_def
    stem_check options_check explanations_check
  by (simp only: truthy.simps is_object.simps simp_thms)

text \<open>
  C7 (as amended). The Validator accepts a candidate if and only if the stem is a string of
  trimmed length at least 5, the options are an array of exactly 4 strings each non-empty
  after trimming, the correct-answer marker is one of A, B, C, D, the explanations are an
  object with a string non-empty after trimming under each of the four labels, and the
  correct-answer rationale is a string that is non-empty after trimming.
\<close>

theorem validator_iff: "isValidQuestion q \<longleftrightarrow> spec_accepts_trimmed q"
proof (cases q)
  case (JObj kvs)
  then show ?thesis by (simp only: validator_iff_obj)
next
  case (JArr xs)
  then show ?thesis
    by (simp only: isValidQuestion_conj spec_accepts_trimmed_def get.simps jsval.case simp_thms)
qed (simp_all only: isValidQuestion_conj spec_accepts_trimmed_def truthy.simps is_object.simps
      get.simps jsval.case simp_thms)

theorem validator_iff_witness:
  "isValidQuestion sample_unit \<and> spec_accepts_trimmed sample_unit"
  using validator_iff [of sample_unit]
  by (simp add: spec_accepts_trimmed_def sample_unit_def sample_fields_def nonblank_string_def
      labels_def trim_def is_space_def)

text \<open>
  C7 as stated asks of the rationale only that it is a non-empty string: a unit whose
  rationale is one space meets every condition of the claim, and the Validator rejects it.
\<close>

theorem validator_rationale_counterexample:
  "spec_accepts blank_rationale_unit \<and> \<not> isValidQuestion blank_rationale_unit"
  by (simp add: spec_accepts_def isValidQuestion_def blank_rationale_unit_def sample_fields_def
      nonblank_string_def labels_def trim_def is_space_def)

section \<open>Properties of the Sanitizer\<close>

lemma clean_val_idem: "clean_val (clean_val v) = clean_val v"
  by (cases v) (simp_all add: clean_val_def clean_idem)

lemma clean_options_idem: "clean_options (clean_options v) = clean_options v"
  by (cases v) (simp_all add: clean_options_def clean_val_idem)

lemma get_update_same: "get (JObj (AList.update k v al)) k = v"
  by (simp add: update_conv')

lemma get_update_other: "k \<noteq> k' \<Longrightarrow> get (JObj (AList.update k' v al)) k = get (JObj al) k"
  by (simp add: update_conv')

lemma update_get_triv: "get (JObj al) k = v \<Longrightarrow> k \<in> fst ` set al \<Longrightarrow> AList.update k v al = al"
  by (rule update_triv) (auto simp: map_of_eq_None_iff split: option.splits)

text \<open>
  C8. The Sanitizer is idempotent: for every value, sanitizing the sanitized unit returns
  it unchanged.
\<close>

theorem sanitizer_idempotent:
  "sanitizeQuestion (sanitizeQuestion q) = sanitizeQuestion q"
proof (cases "q = JUndefined \<or> q = JNull")
  case True
  then show ?thesis by (auto simp: sanitizeQuestion_def)
next
  case False
  define X where "X = clean_val (get q ''question'')"
  define Y where "Y = clean_options (get q ''multipleChoiceOptions'')"
  define al where "al = AList.update ''multipleChoiceOptions'' Y
    (AList.update ''question'' X (spread q))"
  have s: "sanitizeQuestion q = JObj al"
    using False by (simp add: sanitizeQuestion_def al_def X_def Y_def)
  have ne: "''question'' \<noteq> ''multipleChoiceOptions''" by simp
  have gY: "get (JObj al) ''multipleChoiceOptions'' = Y"
    unfolding al_def by (rule get_update_same)
  have gX: "get (JObj al) ''question'' = X"
    unfolding al_def by (simp only: get_update_other [OF ne] get_update_same)
  have kY: "''multipleChoiceOptions'' \<in> fst ` set al"
    unfolding al_def by (simp only: dom_update Un_iff insert_iff simp_thms)
  have kX: "''question'' \<in> fst ` set al"
    unfolding al_def by (simp only: dom_update Un_iff insert_iff simp_thms)
  have cX: "clean_val X = X"
    unfolding X_def by (rule clean_val_idem)
  have cY: "clean_options Y = Y"
    unfolding Y_def by (rule clean_options_idem)
  have 1: "AList.update ''question'' X al = al"
    by (rule update_get_triv [OF gX kX])
  have 2: "AList.update ''multipleChoiceOptions'' Y al = al"
    by (rule update_get_triv [OF gY kY])
  have "sanitizeQuestion (JObj al) = JObj al"
    unfolding sanitizeQuestion_def gX gY cX cY spread.simps 1 2 by simp
  then show ?thesis
    unfolding s .
qed

theorem sanitizer_idempotent_witness:
  "sanitizeQuestion (sanitizeQuestion sample_unit) = sanitizeQuestion sample_unit \<and>
   get (sanitizeQuestion sample_unit) ''question'' = JStr ''What is 2 + 2?''"
  using sanitizer_idempotent [of sample_unit]
  by (simp add: sanitizeQuestion_def sample_unit_def sample_fields_def clean_val_def clean_def
      trim_def is_space_def is_word_def)

text \<open>
  C10. The Sanitizer of either route changes only the stem and the options of a unit: every
  other property of the unit (the correct-answer label, the explanations, the rationale and
  any further field) reads the same after sanitizing as before.
\<close>

theorem sanitizer_frame:
  "k \<noteq> ''question'' \<Longrightarrow> k \<noteq> ''multipleChoiceOptions'' \<Longrightarrow>
     get (sanitizeQuestion (JObj kvs)) k = get (JObj kvs) k \<and>
     get (sanitize_element (JObj kvs)) k = get (JObj kvs) k"
  by (simp add: sanitizeQuestion_def sanitize_element_def update_conv' split: option.splits)

theorem sanitizer_frame_witness:
  "''correctAnswer'' \<noteq> ''question'' \<and> ''correctAnswer'' \<noteq> ''multipleChoiceOptions'' \<and>
   get (sanitizeQuestion (JObj sample_fields)) ''correctAnswer'' = JStr ''D'' \<and>
   get (sanitize_element (JObj sample_fields)) ''correctAnswer'' = JStr ''D''"
  using sanitizer_frame [of "''correctAnswer''" sample_fields]
  by (simp add: sample_fields_def)

section \<open>Properties of the requested count\<close>

text \<open>
  C6 (as amended). The effective count is 10 when the request has no count, when its count
  is not a number, and when its count is zero or negative; it is the count itself, not
  rounded, when the count is greater than 0 and at most 10; and it is 10 when the count is
  greater than 10. So it is greater than 0 and at most 10 in every case, and it is at least
  1 unless the request gives a number strictly between 0 and 1, which is used as it is.
\<close>

theorem count_range:
  "0 < effective_count c \<and> effective_count c \<le> 10 \<and>
   (c = JUndefined \<longrightarrow> effective_count c = 10) \<and>
   ((case c of JNum n \<Rightarrow> n \<le> 0 \<or> 1 \<le> n | _ \<Rightarrow> True) \<longrightarrow> 1 \<le> effective_count c) \<and>
   ((\<forall>n. c \<noteq> JNum n) \<longrightarrow> effective_count c = 10) \<and>
   (m \<le> 0 \<longrightarrow> effective_count (JNum m) = 10) \<and>
   (0 < m \<and> m \<le> 10 \<longrightarrow> effective_count (JNum m) = m) \<and>
   (10 < m \<longrightarrow> effective_count (JNum m) = 10)"
  by (cases c) (auto simp: effective_count_def)

theorem count_range_witness:
  "effective_count JUndefined = 10 \<and> effective_count (JStr ''7'') = 10 \<and>
   effective_count (JNum 0) = 10 \<and> effective_count (JNum (- 3)) = 10 \<and>
   effective_count (JNum (1 / 2)) = 1 / 2 \<and> effective_count (JNum (5 / 2)) = 5 / 2 \<and>
   effective_count (JNum 10) = 10 \<and> effective_count (JNum 25) = 10"
  using count_range [of JUndefined 0] count_range [of "JStr ''7''" "- 3"]
    count_range [of JNull "1 / 2"] count_range [of JNull "5 / 2"]
    count_range [of JNull 10] count_range [of JNull 25]
  by simp

text \<open>
  C6 as stated puts the effective count between 1 and 10 for a fractional count as well:
  a count of one half is used as it is.
\<close>

theorem count_counterexample:
  "effective_count (JNum (1 / 2)) = 1 / 2 \<and>
   \<not> (1 \<le> effective_count (JNum (1 / 2)) \<and> effective_count (JNum (1 / 2)) \<le> 10)"
  by (simp add: effective_count_def)

section \<open>Properties of the Line Framer\<close>

lemma indexOf_nl_append:
  "indexOf_nl b = Some i \<Longrightarrow> indexOf_nl (b @ c) = Some i"
proof -
  assume "indexOf_nl b = Some i"
  then have mem: "nl \<in> set b" and i: "i = length (takeWhile (\<lambda>c. c \<noteq> nl) b)"
    by (auto simp: indexOf_nl_def split: if_splits)
  from mem have "takeWhile (\<lambda>c. c \<noteq> nl) (b @ c) = takeWhile (\<lambda>c. c \<noteq> nl) b"
    by (induction b) auto
  with mem i show ?thesis
    by (simp add: indexOf_nl_def)
qed

lemma indexOf_nl_None: "indexOf_nl b = None \<longleftrightarrow> nl \<notin> set b"
  by (simp add: indexOf_nl_def)

lemma drain_no_nl: "nl \<notin> set b \<Longrightarrow> drain h b st = (b, st)"
  by (subst drain.simps) (simp add: indexOf_nl_def)

lemma drain_step:
  "indexOf_nl buffer = Some idx \<Longrightarrow>
   drain h buffer st =
     (if trim (take idx buffer) = [] then drain h (drop (Suc idx) buffer) st
      else drain h (drop (Suc idx) buffer) (h (trim (take idx buffer)) st))"
  by (subst drain.simps) (simp add: Let_def)

lemma drain_append:
  "drain h (b @ c) st = (case drain h b st of (b', st') \<Rightarrow> drain h (b' @ c) st')"
proof (induction h b st rule: drain.induct)
  case (1 h buffer st)
  show ?case
  proof (cases "indexOf_nl buffer")
    case None
    then show ?thesis
      by (simp add: drain_no_nl indexOf_nl_None)
  next
    case (Some idx)
    then have idx: "idx < length buffer"
      by (simp add: indexOf_nl_drop)
    have app: "indexOf_nl (buffer @ c) = Some idx"
      using Some by (rule indexOf_nl_append)
    from idx have tk: "take idx (buffer @ c) = take idx buffer"
      and dr: "drop (Suc idx) (buffer @ c) = drop (Suc idx) buffer @ c"
      by simp_all
    show ?thesis
    proof (cases "trim (take idx buffer) = []")
      case True
      have "drain h (buffer @ c) st = drain h (drop (Suc idx) buffer @ c) st"
        unfolding drain_step [OF app] tk dr using True by simp
      also have "\<dots> = (case drain h (drop (Suc idx) buffer) st of
          (b', st') \<Rightarrow> drain h (b' @ c) st')"
        using "1.IH"(1) [OF Some refl refl True] by simp
      also have "drain h (drop (Suc idx) buffer) st = drain h buffer st"
        unfolding drain_step [OF Some] using True by simp
      finally show ?thesis .
    next
      case False
      have "drain h (buffer @ c) st =
          drain h (drop (Suc idx) buffer @ c) (h (trim (take idx buffer)) st)"
        unfolding drain_step [OF app] tk dr using False by simp
      also have "\<dots> = (case drain h (drop (Suc idx) buffer) (h (trim (take idx buffer)) st) of
          (b', st') \<Rightarrow> drain h (b' @ c) st')"
        using "1.IH"(2) [OF Some refl refl False] by simp
      also have "drain h (drop (Suc idx) buffer) (h (trim (take idx buffer)) st) =
          drain h buffer st"
        unfolding drain_step [OF Some] using False by simp
      finally show ?thesis .
    qed
  qed
qed

lemma drain_rest_no_nl: "drain h b st = (b', st') \<Longrightarrow> nl \<notin> set b'"
proof (induction h b st rule: drain.induct)
  case (1 h buffer st)
  show ?case
  proof (cases "indexOf_nl buffer")
    case None
    with "1.prems" show ?thesis
      by (simp add: drain_no_nl indexOf_nl_None)
  next
    case (Some idx)
    show ?thesis
    proof (cases "trim (take idx buffer) = []")
      case True
      from "1.prems" have "drain h (drop (Suc idx) buffer) st = (b', st')"
        unfolding drain_step [OF Some] using True by simp
      then show ?thesis
        using "1.IH"(1) [OF Some refl refl True] by simp
    next
      case False
      from "1.prems" have
        "drain h (drop (Suc idx) buffer) (h (trim (take idx buffer)) st) = (b', st')"
        unfolding drain_step [OF Some] using False by simp
      then show ?thesis
        using "1.IH"(2) [OF Some refl refl False] by simp
    qed
  qed
qed

lemma feed_concat:
  "nl \<notin> set b \<Longrightarrow> feed h (\<lambda>st. st) chunks b st = drain h (b @ concat chunks) st"
proof (induction chunks arbitrary: b st)
  case Nil
  then show ?case by (simp add: drain_no_nl)
next
  case (Cons t chunks)
  obtain b' st' where d: "drain h (b @ t) st = (b', st')"
    by (cases "drain h (b @ t) st")
  then have "nl \<notin> set b'"
    by (rule drain_rest_no_nl)
  then have "feed h (\<lambda>st. st) chunks b' st' = drain h (b' @ concat chunks) st'"
    by (rule Cons.IH)
  moreover have "drain h ((b @ t) @ concat chunks) st = drain h (b' @ concat chunks) st'"
    by (subst drain_append) (simp add: d)
  ultimately show ?case
    by (simp add: d)
qed


lemma split_nl_no_nl: "nl \<notin> set s \<Longrightarrow> split_nl s = [s]"
  by (subst split_nl.simps) (simp add: indexOf_nl_def)

lemma split_nl_step:
  "indexOf_nl s = Some i \<Longrightarrow>
   split_nl s = take i s # split_nl (dropWhile (\<lambda>c. c = nl) (drop (Suc i) s))"
proof -
  assume i: "indexOf_nl s = Some i"
  then have "drop i s = nl # drop (Suc i) s"
    by (simp add: indexOf_nl_drop)
  then have "dropWhile (\<lambda>c. c = nl) (drop i s) = dropWhile (\<lambda>c. c = nl) (drop (Suc i) s)"
    by simp
  with i show ?thesis
    by (subst split_nl.simps) simp
qed

lemma indexOf_nl_Cons: "indexOf_nl (nl # t) = Some 0"
  by (simp add: indexOf_nl_def)

lemma lines_of_dropWhile: "lines_of (dropWhile (\<lambda>c. c = nl) t) = lines_of t"
proof (induction t)
  case Nil
  show ?case by simp
next
  case (Cons c t)
  show ?case
  proof (cases "c = nl")
    case True
    have "lines_of (nl # t) = lines_of (dropWhile (\<lambda>c. c = nl) t)"
      unfolding lines_of_def split_nl_step [OF indexOf_nl_Cons]
      by (simp add: trim_def)
    with True Cons.IH show ?thesis by simp
  next
    case False
    then show ?thesis by simp
  qed
qed

lemma lines_of_step:
  "indexOf_nl s = Some i \<Longrightarrow>
   lines_of s = (if trim (take i s) = [] then [] else [trim (take i s)]) @
                lines_of (drop (Suc i) s)"
proof -
  assume i: "indexOf_nl s = Some i"
  have "lines_of s = (if trim (take i s) = [] then [] else [trim (take i s)]) @
      lines_of (dropWhile (\<lambda>c. c = nl) (drop (Suc i) s))"
    unfolding lines_of_def split_nl_step [OF i] by simp
  then show ?thesis
    unfolding lines_of_dropWhile .
qed

lemma lines_of_no_nl:
  "nl \<notin> set s \<Longrightarrow> lines_of s = (if trim s = [] then [] else [trim s])"
  by (simp add: lines_of_def split_nl_no_nl)

lemma drain_collect_lines:
  "drain (\<lambda>line acc. acc @ [line]) s acc = (r, ls) \<Longrightarrow>
   acc @ lines_of s = ls @ (if trim r = [] then [] else [trim r])"
proof (induction "\<lambda>(line :: string) (acc :: string list). acc @ [line]" s acc rule: drain.induct)
  case (1 buffer st)
  show ?case
  proof (cases "indexOf_nl buffer")
    case None
    then have n: "nl \<notin> set buffer"
      by (simp add: indexOf_nl_None)
    with "1.prems" have "r = buffer" "ls = st"
      by (simp_all add: drain_no_nl)
    with n show ?thesis
      by (simp add: lines_of_no_nl)
  next
    case (Some idx)
    show ?thesis
    proof (cases "trim (take idx buffer) = []")
      case True
      from "1.prems" have "drain (\<lambda>line acc. acc @ [line]) (drop (Suc idx) buffer) st = (r, ls)"
        unfolding drain_step [OF Some] using True by simp
      then have "st @ lines_of (drop (Suc idx) buffer) = ls @ (if trim r = [] then [] else [trim r])"
        using "1.hyps"(1) [OF Some refl refl True] by simp
      then show ?thesis
        unfolding lines_of_step [OF Some] using True by simp
    next
      case False
      from "1.prems" have "drain (\<lambda>line acc. acc @ [line]) (drop (Suc idx) buffer)
          (st @ [trim (take idx buffer)]) = (r, ls)"
        unfolding drain_step [OF Some] using False by simp
      then have "(st @ [trim (take idx buffer)]) @ lines_of (drop (Suc idx) buffer) =
          ls @ (if trim r = [] then [] else [trim r])"
        using "1.hyps"(2) [OF Some refl refl False] by simp
      then show ?thesis
        unfolding lines_of_step [OF Some] using False by simp
    qed
  qed
qed

lemma lines_of_trimmed: "l \<in> set (lines_of s) \<Longrightarrow> l \<noteq> [] \<and> trim l = l"
  by (auto simp: lines_of_def trim_idem)

text \<open>
  Whatever the handler, the inner loop runs it on the same lines, in order: the ones the
  Line Framer yields.
\<close>

lemma drain_handles_collected:
  "drain (\<lambda>line acc. acc @ [line]) b acc = (r, ls') \<Longrightarrow>
   \<exists>ls. ls' = acc @ ls \<and> drain h b st = (r, fold h ls st)"
proof (induction "\<lambda>(line :: string) (acc :: string list). acc @ [line]" b acc arbitrary: st
    rule: drain.induct)
  case (1 buffer acc)
  show ?case
  proof (cases "indexOf_nl buffer")
    case None
    then have n: "nl \<notin> set buffer"
      by (simp add: indexOf_nl_None)
    with "1.prems" show ?thesis
      by (simp add: drain_no_nl)
  next
    case (Some idx)
    show ?thesis
    proof (cases "trim (take idx buffer) = []")
      case True
      from "1.prems" have "drain (\<lambda>line acc. acc @ [line]) (drop (Suc idx) buffer) acc = (r, ls')"
        unfolding drain_step [OF Some] using True by simp
      then have "\<exists>ls. ls' = acc @ ls \<and> drain h (drop (Suc idx) buffer) st = (r, fold h ls st)"
        using "1.hyps"(1) [OF Some refl refl True] by simp
      then show ?thesis
        unfolding drain_step [OF Some, of h] using True by simp
    next
      case False
      let ?l = "trim (take idx buffer)"
      from "1.prems" have "drain (\<lambda>line acc. acc @ [line]) (drop (Suc idx) buffer)
          (acc @ [?l]) = (r, ls')"
        unfolding drain_step [OF Some] using False by simp
      then have "\<exists>ls. ls' = (acc @ [?l]) @ ls \<and>
          drain h (drop (Suc idx) buffer) (h ?l st) = (r, fold h ls (h ?l st))"
        using "1.hyps"(2) [OF Some refl refl False, of "h ?l st"] by simp
      then obtain ls where ls: "ls' = (acc @ [?l]) @ ls"
        "drain h (drop (Suc idx) buffer) (h ?l st) = (r, fold h ls (h ?l st))"
        by blast
      have "drain h buffer st = (r, fold h (?l # ls) st)"
        unfolding drain_step [OF Some, of h] using False ls(2) by simp
      with ls(1) show ?thesis
        by (intro exI [of _ "?l # ls"]) simp
    qed
  qed
qed

section \<open>Properties of the Generation Orchestrator\<close>

subsection \<open>Numbering of the question events\<close>

lemma question_events_append:
  "question_events (xs @ ys) = question_events xs @ question_events ys"
  by (induction xs rule: question_events.induct) simp_all

lemma quiet_simps [simp]: "quiet []" "quiet [Server x]"
  by (simp_all add: quiet_def)

lemma well_numbered_enqueue:
  "quiet es \<Longrightarrow> well_numbered s \<Longrightarrow> well_numbered (enqueue es s)"
  by (simp add: well_numbered_def enqueue_def quiet_def question_events_append)

lemma well_numbered_emit:
  "well_numbered s \<Longrightarrow> well_numbered (emit_question count u s)"
  by (simp add: well_numbered_def emit_question_def enqueue_def question_events_append)

lemma well_numbered_handle_line:
  "quiet on_throw \<Longrightarrow> quiet on_invalid \<Longrightarrow> well_numbered s \<Longrightarrow>
   well_numbered (handle_line parse count san on_throw on_invalid line s)"
  by (simp add: handle_line_def well_numbered_enqueue well_numbered_emit split: option.splits)

lemma well_numbered_calls [simp]: "well_numbered (s\<lparr>calls := n\<rparr>) = well_numbered s"
  by (simp add: well_numbered_def)

lemma well_numbered_generateContent:
  "generateContent up s = (r, s') \<Longrightarrow> well_numbered s \<Longrightarrow> well_numbered s'"
  by (auto simp: generateContent_def)

lemma drain_preserves:
  "(\<And>l s. P s \<Longrightarrow> P (h l s)) \<Longrightarrow> P st \<Longrightarrow> drain h b st = (b', st') \<Longrightarrow> P st'"
proof (induction h b st rule: drain.induct)
  case (1 h buffer st)
  show ?case
  proof (cases "indexOf_nl buffer")
    case None
    with "1.prems" show ?thesis
      by (simp add: drain_no_nl indexOf_nl_None)
  next
    case (Some idx)
    show ?thesis
    proof (cases "trim (take idx buffer) = []")
      case True
      from "1.prems"(3) have "drain h (drop (Suc idx) buffer) st = (b', st')"
        unfolding drain_step [OF Some] using True by simp
      then show ?thesis
        using "1.IH"(1) [OF Some refl refl True] "1.prems"(1,2) by simp
    next
      case False
      from "1.prems"(3) have
        "drain h (drop (Suc idx) buffer) (h (trim (take idx buffer)) st) = (b', st')"
        unfolding drain_step [OF Some] using False by simp
      moreover have "P (h (trim (take idx buffer)) st)"
        using "1.prems"(1,2) by simp
      ultimately show ?thesis
        using "1.IH"(2) [OF Some refl refl False] "1.prems"(1) by simp
    qed
  qed
qed

lemma feed_preserves:
  "(\<And>l s. P s \<Longrightarrow> P (h l s)) \<Longrightarrow> (\<And>s. P s \<Longrightarrow> P (pre s)) \<Longrightarrow> P st \<Longrightarrow>
   feed h pre chunks b st = (b', st') \<Longrightarrow> P st'"
proof (induction chunks arbitrary: b st)
  case Nil
  then show ?case by simp
next
  case (Cons t chunks)
  obtain b1 s1 where d: "drain h (b @ t) (pre st) = (b1, s1)"
    by (cases "drain h (b @ t) (pre st)")
  have "P (pre st)"
    using Cons.prems(2,3) by simp
  then have "P s1"
    using drain_preserves [of P h "pre st" "b @ t" b1 s1] Cons.prems(1) d by blast
  moreover from Cons.prems(4) d have "feed h pre chunks b1 s1 = (b', st')"
    by simp
  ultimately show ?case
    using Cons.IH [of s1 b1] Cons.prems(1,2) by blast
qed

lemma flush_lines_preserves:
  "(\<And>l s. P s \<Longrightarrow>
      P (handle_line parse count sanitizeQuestion
           [Server ''parse-error-trailing''] [Server ''invalid-trailing''] l s)) \<Longrightarrow>
   P s \<Longrightarrow> P (flush_lines parse count ls s)"
  by (induction ls arbitrary: s) simp_all

lemma topup_lines_preserves:
  "(\<And>s. P s \<Longrightarrow> P (enqueue on_throw s)) \<Longrightarrow> (\<And>s. P s \<Longrightarrow> P (enqueue on_invalid s)) \<Longrightarrow>
   (\<And>u s. P s \<Longrightarrow> P (emit_question count u s)) \<Longrightarrow>
   P s \<Longrightarrow> P (topup_lines parse count san on_throw on_invalid ls s)"
  by (induction ls arbitrary: s) (simp_all add: Let_def split: option.splits)

lemma well_numbered_flush:
  "well_numbered s \<Longrightarrow> well_numbered (flush parse count buffer s)"
  unfolding flush_def
  by (simp add: flush_lines_preserves [where P = well_numbered] well_numbered_handle_line)

lemma well_numbered_topup_lines:
  "quiet on_throw \<Longrightarrow> quiet on_invalid \<Longrightarrow> well_numbered s \<Longrightarrow>
   well_numbered (topup_lines parse count san on_throw on_invalid ls s)"
  by (rule topup_lines_preserves [where P = well_numbered])
     (simp_all add: well_numbered_enqueue well_numbered_emit)

subsection \<open>Upstream calls\<close>

lemma calls_enqueue [simp]: "calls (enqueue es s) = calls s"
  by (simp add: enqueue_def)

lemma calls_emit_question [simp]: "calls (emit_question count u s) = calls s"
  by (simp add: emit_question_def)

lemma calls_handle_line [simp]:
  "calls (handle_line parse count san on_throw on_invalid line s) = calls s"
  by (simp add: handle_line_def split: option.splits)

lemma calls_topup_lines [simp]:
  "calls (topup_lines parse count san on_throw on_invalid ls s) = calls s"
  by (induction ls arbitrary: s) (simp_all add: Let_def split: option.splits)

lemma calls_flush_lines [simp]: "calls (flush_lines parse count ls s) = calls s"
  by (induction ls arbitrary: s) simp_all

lemma calls_flush [simp]: "calls (flush parse count buffer s) = calls s"
  by (simp add: flush_def)

lemma calls_feed:
  assumes "feed (handle_line parse count san on_throw on_invalid) (enqueue es) chunks b s = (b', s')"
  shows "calls s' = calls s"
proof -
  define n where "n = calls s"
  have "calls s' = n"
  proof (rule feed_preserves [where P = "\<lambda>x. calls x = n", OF _ _ _ assms])
    show "\<And>l x. calls x = n \<Longrightarrow> calls (handle_line parse count san on_throw on_invalid l x) = n"
      by simp
    show "\<And>x. calls x = n \<Longrightarrow> calls (enqueue es x) = n"
      by simp
    show "calls s = n"
      by (simp add: n_def)
  qed
  then show ?thesis
    by (simp add: n_def)
qed

subsection \<open>Bulk top-up\<close>

lemma final_retry_returns:
  assumes "up (calls s) \<noteq> Throws" and "well_numbered s"
  shows "\<exists>s'. final_retry parse up count s = Returns s' \<and> well_numbered s'"
proof -
  obtain t where t: "up (calls s) = Text t"
    using assms(1) by (cases "up (calls s)") auto
  have "well_numbered (enqueue [Server ''final-retry''] s)"
    using assms(2) by (simp add: well_numbered_enqueue)
  then show ?thesis
    by (simp add: final_retry_def generateContent_def t well_numbered_topup_lines)
qed

lemma second_retry_returns:
  assumes "up (calls s) \<noteq> Throws" and "up (Suc (calls s)) \<noteq> Throws" and "well_numbered s"
  shows "\<exists>s'. second_retry parse up count s = Returns s' \<and> well_numbered s'"
proof -
  obtain t where t: "up (calls s) = Text t"
    using assms(1) by (cases "up (calls s)") auto
  define s1 where "s1 = topup_lines parse count sanitizeQuestion [] [] (lines_of t)
    (enqueue [Server ''second-retry''] s\<lparr>calls := Suc (calls s)\<rparr>)"
  have w: "well_numbered s1"
    unfolding s1_def using assms(3) by (simp add: well_numbered_enqueue well_numbered_topup_lines)
  have c: "calls s1 = Suc (calls s)"
    by (simp add: s1_def)
  have "second_retry parse up count s =
      (if rat_of_nat (emitted s1) < count then final_retry parse up count s1 else Returns s1)"
    by (simp add: second_retry_def generateContent_def t s1_def Let_def)
  with final_retry_returns [of up s1 parse count] assms(2) w c show ?thesis
    by auto
qed

lemma bulk_topup_returns:
  assumes "\<forall>n<3. up n \<noteq> Throws" and "calls s = 0" and "well_numbered s"
  shows "\<exists>s'. bulk_topup parse up count s = Returns s' \<and> well_numbered s'"
proof (cases "rat_of_nat (emitted s) < count")
  case False
  with assms(3) show ?thesis by (simp add: bulk_topup_def)
next
  case True
  from assms(1) have u: "up 0 \<noteq> Throws" "up (Suc 0) \<noteq> Throws" "up (Suc (Suc 0)) \<noteq> Throws"
    by (simp_all add: numeral_3_eq_3)
  obtain t where t: "up 0 = Text t"
    using u(1) by (cases "up 0") auto
  define s1 where "s1 = topup_lines parse count sanitizeQuestion
    [Server ''parse-error-fallback''] [Server ''invalid-fallback''] (lines_of t)
    (enqueue [Server ''fallback-topup''] s\<lparr>calls := Suc 0\<rparr>)"
  have w: "well_numbered s1"
    unfolding s1_def using assms(3) by (simp add: well_numbered_enqueue well_numbered_topup_lines)
  have c: "calls s1 = Suc 0"
    by (simp add: s1_def)
  have "bulk_topup parse up count s =
      (if rat_of_nat (emitted s1) < count then second_retry parse up count s1 else Returns s1)"
    using True by (simp add: bulk_topup_def generateContent_def assms(2) t s1_def Let_def)
  with second_retry_returns [of up s1 parse count] u w c show ?thesis
    by auto
qed

subsection \<open>Single-item recovery\<close>

lemma usable_Some:
  "usable parse existing t = Some c \<Longrightarrow>
   isValidQuestion c \<and> normalize (stem_of c) \<notin> set existing"
  by (auto simp: usable_def split: option.splits if_splits)

lemma single_pass_cases:
  assumes "single_pass parse up topic count s existing = (s', existing', sl)"
  shows "(\<exists>c n. s' = emit_question count (sanitizeQuestion c) (s\<lparr>calls := n\<rparr>) \<and>
            existing' = existing @ [normalize (stem_of c)] \<and> sl = FromModel c \<and>
            isValidQuestion c \<and> normalize (stem_of c) \<notin> set existing) \<or>
         (\<exists>n. s' = filler topic count (s\<lparr>calls := n\<rparr>) \<and> existing' = existing \<and> sl = Filler)"
proof (cases "up (calls s)")
  case Throws
  with assms show ?thesis
    by (auto simp: single_pass_def generateContent_def)
next
  case (Text t1)
  note t1 = this
  show ?thesis
  proof (cases "usable parse existing t1")
    case (Some c)
    with assms t1 usable_Some [OF Some] show ?thesis
      by (auto simp: single_pass_def generateContent_def accept_single_def)
  next
    case None
    note n1 = this
    show ?thesis
    proof (cases "up (Suc (calls s))")
      case Throws
      with assms t1 n1 show ?thesis
        by (auto simp: single_pass_def generateContent_def)
    next
      case (Text t2)
      show ?thesis
      proof (cases "usable parse existing t2")
        case (Some c)
        with assms t1 n1 Text usable_Some [OF Some] show ?thesis
          by (auto simp: single_pass_def generateContent_def accept_single_def)
      next
        case None
        with assms t1 n1 Text show ?thesis
          by (auto simp: single_pass_def generateContent_def)
      qed
    qed
  qed
qed

lemma question_events_emit:
  "question_events (out (emit_question count u s)) =
   question_events (out s) @ [(Suc (emitted s), u)]"
  by (simp add: emit_question_def enqueue_def question_events_append)

lemma single_loop_result:
  "single_loop parse up topic count s existing filled = (s', existing', filled') \<Longrightarrow>
   \<exists>new. filled' = filled @ new \<and>
     existing' = existing @ map (normalize \<circ> stem_of) (candidates_of new) \<and>
     (distinct existing \<longrightarrow> distinct existing') \<and>
     question_events (out s') = question_events (out s) @ slot_events topic (emitted s) new \<and>
     (well_numbered s \<longrightarrow> well_numbered s') \<and>
     \<not> rat_of_nat (emitted s') < count"
proof (induction parse up topic count s existing filled rule: single_loop.induct)
  case (1 parse up topic count s existing filled)
  show ?case
  proof (cases "rat_of_nat (emitted s) < count")
    case False
    with "1.prems" have "s' = s" "existing' = existing" "filled' = filled"
      by (simp_all add: single_loop.simps)
    with False show ?thesis by simp
  next
    case True
    obtain s1 ex1 sl where p: "single_pass parse up topic count s existing = (s1, ex1, sl)"
      by (cases "single_pass parse up topic count s existing")
    from "1.prems" True p
    have l: "single_loop parse up topic count s1 ex1 (filled @ [sl]) = (s', existing', filled')"
      by (simp add: single_loop.simps)
    from "1.IH" [OF True p [symmetric] refl l]
    obtain new where new: "filled' = (filled @ [sl]) @ new"
      "existing' = ex1 @ map (normalize \<circ> stem_of) (candidates_of new)"
      "distinct ex1 \<longrightarrow> distinct existing'"
      "question_events (out s') = question_events (out s1) @ slot_events topic (emitted s1) new"
      "well_numbered s1 \<longrightarrow> well_numbered s'"
      "\<not> rat_of_nat (emitted s') < count"
      by blast
    from single_pass_cases [OF p] show ?thesis
    proof (elim disjE exE conjE)
      fix c n
      assume a: "s1 = emit_question count (sanitizeQuestion c) (s\<lparr>calls := n\<rparr>)"
        "ex1 = existing @ [normalize (stem_of c)]" "sl = FromModel c"
        "isValidQuestion c" "normalize (stem_of c) \<notin> set existing"
      have q: "question_events (out s1) =
          question_events (out s) @ [(Suc (emitted s), sanitizeQuestion c)]"
        and e: "emitted s1 = Suc (emitted s)"
        and w: "well_numbered s \<longrightarrow> well_numbered s1"
        unfolding a(1) by (simp_all add: question_events_emit well_numbered_emit)
      have d: "distinct existing \<longrightarrow> distinct ex1"
        using a(2,5) by simp
      show ?thesis
        by (rule exI [of _ "sl # new"]) (use new a q e w d in simp)
    next
      fix n
      assume a: "s1 = filler topic count (s\<lparr>calls := n\<rparr>)" "ex1 = existing" "sl = Filler"
      from True have f: "s1 = emit_question count
          (sanitizeQuestion (synthetic topic (Suc (emitted s)))) (s\<lparr>calls := n\<rparr>)"
        unfolding a(1) by (simp add: filler_def)
      have q: "question_events (out s1) = question_events (out s) @
          [(Suc (emitted s), sanitizeQuestion (synthetic topic (Suc (emitted s))))]"
        and e: "emitted s1 = Suc (emitted s)"
        and w: "well_numbered s \<longrightarrow> well_numbered s1"
        unfolding f by (simp_all add: question_events_emit well_numbered_emit)
      show ?thesis
        by (rule exI [of _ "sl # new"]) (use new a q e w in simp)
    qed
  qed
qed

lemma single_recovery_reaches:
  "well_numbered s \<Longrightarrow>
   well_numbered (single_recovery parse up topic count s) \<and>
   \<not> rat_of_nat (emitted (single_recovery parse up topic count s)) < count"
proof (cases "rat_of_nat (emitted s) < count")
  case False
  then show "well_numbered s \<Longrightarrow> ?thesis"
    by (simp add: single_recovery_def)
next
  case True
  assume w: "well_numbered s"
  let ?s0 = "enqueue [Server ''final-single-regeneration''] s"
  obtain s' ex' f' where l: "single_loop parse up topic count ?s0 [] [] = (s', ex', f')"
    by (cases "single_loop parse up topic count ?s0 [] []")
  have "well_numbered ?s0"
    using w by (simp add: well_numbered_enqueue)
  with single_loop_result [OF l] have "well_numbered s' \<and> \<not> rat_of_nat (emitted s') < count"
    by blast
  with True l show ?thesis
    by (simp add: single_recovery_def)
qed

text \<open>The synthetic unit passes the Validator after sanitizing, whatever the topic.\<close>

lemma collapse_runs_nonspace: "\<not> is_space c \<Longrightarrow> collapse_runs (c # y) = c # collapse_runs y"
  by (cases y) simp_all

lemma length_trim_prefix:
  assumes "a \<noteq> []" and "\<forall>c\<in>set a. \<not> is_space c"
  shows "length a \<le> length (trim (a @ z))"
proof -
  from assms have h: "\<not> is_space (hd a)" and l: "\<not> is_space (last a)"
    by simp_all
  from assms(1) h have 1: "dropWhile is_space (a @ z) = a @ z"
    by (cases a) simp_all
  from assms(1) l have 2: "dropWhile is_space (rev a) = rev a"
    by (cases "rev a") (simp_all add: hd_rev [symmetric] del: hd_rev)
  have "length (rev a) \<le> length (dropWhile is_space (rev z @ rev a))"
    by (simp add: dropWhile_append 2)
  then show ?thesis
    by (simp add: trim_def 1)
qed

lemma clean_synthetic_stem:
  "9 \<le> length (clean (''Synthetic'' @ z))"
proof -
  have 1: "remove_blank False (''Synthetic'' @ z) = ''Synthetic'' @ remove_blank True z"
    by (simp add: is_word_def)
  have 2: "collapse_runs (''Synthetic'' @ y) = ''Synthetic'' @ collapse_runs y" for y
    by (simp add: collapse_runs_nonspace is_space_def)
  have "length ''Synthetic'' \<le> length (trim (''Synthetic'' @ collapse_runs (remove_blank True z)))"
    by (rule length_trim_prefix) (simp_all add: is_space_def)
  then show ?thesis
    unfolding clean_def 1 2 by simp
qed

lemma synthetic_valid: "isValidQuestion (sanitizeQuestion (synthetic topic n))"
proof -
  let ?z = "'' recovery question '' @ decimal n @ '' for '' @ topic @ '': Choose the best option.''"
  have stem: "get (synthetic topic n) ''question'' = JStr (''Synthetic'' @ ?z)"
    by (simp add: synthetic_def)
  have "5 \<le> length (clean (''Synthetic'' @ ?z))"
    using clean_synthetic_stem [of ?z] by simp
  moreover have "trim (clean s) = clean s" for s
    unfolding clean_def by (rule trim_idem)
  ultimately have 5: "\<not> length (trim (clean (''Synthetic'' @ ?z))) < 5"
    by simp
  have opts: "clean ''A. Conceptual distractor'' = ''A. Conceptual distractor''"
    "clean ''B. Another distractor'' = ''B. Another distractor''"
    "clean ''C. Correct answer'' = ''C. Correct answer''"
    "clean ''D. Plausible but wrong'' = ''D. Plausible but wrong''"
    by code_simp+
  have t: "trim ''A. Conceptual distractor'' = ''A. Conceptual distractor''"
    "trim ''B. Another distractor'' = ''B. Another distractor''"
    "trim ''C. Correct answer'' = ''C. Correct answer''"
    "trim ''D. Plausible but wrong'' = ''D. Plausible but wrong''"
    "trim ''A does not address the core requirement.'' \<noteq> []"
    "trim ''B is irrelevant to the topic focus.'' \<noteq> []"
    "trim ''C best fits the topic context.'' \<noteq> []"
    "trim ''D introduces an unsupported idea.'' \<noteq> []"
    "trim ''C directly satisfies the constraints of the topic while others do not.'' \<noteq> []"
    by code_simp+
  have s: "sanitizeQuestion (synthetic topic n) = JObj
     [(''question'', JStr (clean (''Synthetic'' @ ?z))),
      (''multipleChoiceOptions'',
         JArr [JStr ''A. Conceptual distractor'', JStr ''B. Another distractor'',
               JStr ''C. Correct answer'', JStr ''D. Plausible but wrong'']),
      (''correctAnswer'', JStr ''C''),
      (''incorrectExplanations'',
         JObj [(''A'', JStr ''A does not address the core requirement.''),
               (''B'', JStr ''B is irrelevant to the topic focus.''),
               (''C'', JStr ''C best fits the topic context.''),
               (''D'', JStr ''D introduces an unsupported idea.'')]),
      (''correctExplanation'',
         JStr ''C directly satisfies the constraints of the topic while others do not.'')]"
    by (simp add: sanitizeQuestion_def synthetic_def clean_val_def clean_options_def opts)
  show ?thesis
    unfolding s isValidQuestion_def
    using 5 by (simp add: nonblank_string_def labels_def t)
qed

subsection \<open>The streaming route\<close>

lemma well_numbered_start: "well_numbered start"
  by (simp add: well_numbered_def start_def)

lemma well_numbered_length: "well_numbered s \<Longrightarrow> length (question_events (out s)) = emitted s"
proof -
  assume "well_numbered s"
  then have "map fst (question_events (out s)) = [1..<Suc (emitted s)]"
    unfolding well_numbered_def by blast
  then have "length (map fst (question_events (out s))) = length [1..<Suc (emitted s)]"
    by (rule arg_cong)
  then show ?thesis
    by (simp del: upt_Suc)
qed

lemma stream_path_completes:
  assumes up: "\<forall>n<3. up n \<noteq> Throws"
  shows "\<exists>s. stream_path parse up topic count chunks False = Returns (enqueue [Done] s) \<and>
     well_numbered s \<and> \<not> rat_of_nat (emitted s) < count"
proof -
  let ?h = "handle_line parse count sanitizeQuestion [] [Server ''invalid'']"
  let ?s0 = "enqueue [Server ''stream-open''] start"
  obtain buffer s1 where f: "feed ?h (enqueue [Server ''chunk'']) chunks [] ?s0 = (buffer, s1)"
    by (cases "feed ?h (enqueue [Server ''chunk'']) chunks [] ?s0")
  have w0: "well_numbered ?s0"
    by (simp add: well_numbered_enqueue well_numbered_start)
  have w1: "well_numbered s1"
  proof (rule feed_preserves [where P = well_numbered, OF _ _ w0 f])
    show "\<And>l s. well_numbered s \<Longrightarrow> well_numbered (?h l s)"
      by (simp add: well_numbered_handle_line)
    show "\<And>s. well_numbered s \<Longrightarrow> well_numbered (enqueue [Server ''chunk''] s)"
      by (simp add: well_numbered_enqueue)
  qed
  have c1: "calls s1 = 0"
    using calls_feed [OF f] by (simp add: start_def)
  let ?s2 = "flush parse count buffer s1"
  have w2: "well_numbered ?s2" and c2: "calls ?s2 = 0"
    using w1 c1 by (simp_all add: well_numbered_flush)
  obtain s3 where b: "bulk_topup parse up count ?s2 = Returns s3" and w3: "well_numbered s3"
    using bulk_topup_returns [OF up c2 w2] by blast
  let ?s4 = "single_recovery parse up topic count s3"
  have "stream_path parse up topic count chunks False = Returns (enqueue [Done] ?s4)"
    by (simp add: stream_path_def f b)
  with single_recovery_reaches [OF w3] show ?thesis
    by blast
qed

text \<open>
  On the streaming path, when the calls of bulk top-up do not throw, the question events
  are numbered 1, 2, ... in order without a gap, and there are at least as many as
  requested.
\<close>

lemma stream_path_numbering:
  assumes "\<forall>n<3. up n \<noteq> Throws"
  shows "\<exists>m. map fst (question_events (POST_stream parse (Chunks chunks) up topic count)) =
           [1..<Suc m] \<and> count \<le> of_nat m"
proof -
  obtain s where s: "stream_path parse up topic count chunks False = Returns (enqueue [Done] s)"
    and w: "well_numbered s" and c: "\<not> rat_of_nat (emitted s) < count"
    using stream_path_completes [OF assms] by blast
  have "POST_stream parse (Chunks chunks) up topic count = out s @ [Done]"
    by (simp add: POST_stream_def s enqueue_def)
  then have "map fst (question_events (POST_stream parse (Chunks chunks) up topic count)) =
      [1..<Suc (emitted s)]"
    using w by (simp add: question_events_append well_numbered_def)
  with c show ?thesis
    by (intro exI [of _ "emitted s"]) simp
qed

text \<open>
  What the route does with an upstream call that throws. A failure to establish the primary
  call ends the response with the error event, before any question. An upstream call of
  single-item recovery that throws, the first of a pass or its retry, is caught in the
  pass, which reports nothing and fills its slot with the synthetic unit. So when the calls
  of bulk top-up do not throw, the session completes whatever the calls of single-item
  recovery do: the response ends with the terminal event, has no error event, and has at
  least the requested number of question events.
\<close>

lemma upstream_failures:
  "POST_stream parse Unreachable up topic count =
     [Server ''received'', Server ''prompt-built'', Error] \<and>
   (up (calls s) = Throws \<longrightarrow>
      single_pass parse up topic count s existing =
        (filler topic count (s\<lparr>calls := calls s + 1\<rparr>), existing, Filler)) \<and>
   (up (calls s) = Text t \<and> usable parse existing t = None \<and> up (calls s + 1) = Throws \<longrightarrow>
      single_pass parse up topic count s existing =
        (filler topic count (s\<lparr>calls := calls s + 2\<rparr>), existing, Filler)) \<and>
   ((\<forall>n<3. up n \<noteq> Throws) \<longrightarrow>
      last (POST_stream parse (Chunks chunks) up topic count) = Done \<and>
      Error \<notin> set (POST_stream parse (Chunks chunks) up topic count) \<and>
      count \<le> of_nat (length (question_events (POST_stream parse (Chunks chunks) up topic count))))"
proof (intro conjI impI)
  show "POST_stream parse Unreachable up topic count =
      [Server ''received'', Server ''prompt-built'', Error]"
    by (simp add: POST_stream_def start_def)
next
  assume "up (calls s) = Throws"
  then show "single_pass parse up topic count s existing =
      (filler topic count (s\<lparr>calls := calls s + 1\<rparr>), existing, Filler)"
    by (simp add: single_pass_def generateContent_def)
next
  assume "up (calls s) = Text t \<and> usable parse existing t = None \<and> up (calls s + 1) = Throws"
  then show "single_pass parse up topic count s existing =
      (filler topic count (s\<lparr>calls := calls s + 2\<rparr>), existing, Filler)"
    by (simp add: single_pass_def generateContent_def)
next
  assume up: "\<forall>n<3. up n \<noteq> Throws"
  obtain s where s: "stream_path parse up topic count chunks False = Returns (enqueue [Done] s)"
    and w: "well_numbered s" and c: "\<not> rat_of_nat (emitted s) < count"
    using stream_path_completes [OF up] by blast
  have evs: "POST_stream parse (Chunks chunks) up topic count = out s @ [Done]"
    by (simp add: POST_stream_def s enqueue_def)
  show "last (POST_stream parse (Chunks chunks) up topic count) = Done"
    by (simp add: evs)
  show "Error \<notin> set (POST_stream parse (Chunks chunks) up topic count)"
    using w by (simp add: evs well_numbered_def)
  have "length (question_events (out s)) = emitted s"
    using w by (rule well_numbered_length)
  then show "count \<le> of_nat (length (question_events
      (POST_stream parse (Chunks chunks) up topic count)))"
    using c by (simp add: evs question_events_append)
qed

lemma upstream_failures_example:
  "flaky_upstream (calls (start\<lparr>calls := 3\<rparr>)) = Throws \<and>
   single_pass sample_parse flaky_upstream ''algebra'' 2 (start\<lparr>calls := 3\<rparr>) [] =
     (filler ''algebra'' 2 (start\<lparr>calls := 4\<rparr>), [], Filler) \<and>
   flaky_upstream 0 \<noteq> Throws \<and> flaky_upstream 1 \<noteq> Throws \<and> flaky_upstream 2 \<noteq> Throws \<and>
   last (POST_stream sample_parse (Chunks []) flaky_upstream ''algebra'' 2) = Done \<and>
   Error \<notin> set (POST_stream sample_parse (Chunks []) flaky_upstream ''algebra'' 2) \<and>
   (2 :: rat) \<le> of_nat (length (question_events
      (POST_stream sample_parse (Chunks []) flaky_upstream ''algebra'' 2)))"
  using upstream_failures [of sample_parse flaky_upstream "''algebra''" 2 "start\<lparr>calls := 3\<rparr>" "[]"
      "[]" "[]"]
  by (simp add: flaky_upstream_def)

text \<open>
  C5 at a failing input: the primary stream closes with nothing and a call of the bulk
  top-up throws, the first, the second or the third of its rounds. The response ends with
  the error event, without a question and without the terminal event: the three calls are
  made outside any local \<open>try\<close>, so the exception reaches the \<open>catch\<close> of the handler. When
  the three calls return and every call of single-item recovery throws, the same request
  completes with the synthetic unit: that tier catches the exception in its own \<open>try\<close>.
\<close>

theorem bulk_topup_throw_aborts:
  "POST_stream sample_parse (Chunks []) (failing_after 0) ''algebra'' 1 =
     [Server ''received'', Server ''prompt-built'', Server ''stream-open'',
      Server ''fallback-topup'', Error] \<and>
   POST_stream sample_parse (Chunks []) (failing_after 1) ''algebra'' 1 =
     [Server ''received'', Server ''prompt-built'', Server ''stream-open'',
      Server ''fallback-topup'', Server ''second-retry'', Error] \<and>
   POST_stream sample_parse (Chunks []) (failing_after 2) ''algebra'' 1 =
     [Server ''received'', Server ''prompt-built'', Server ''stream-open'',
      Server ''fallback-topup'', Server ''second-retry'', Server ''final-retry'', Error] \<and>
   POST_stream sample_parse (Chunks []) (failing_after 3) ''algebra'' 1 =
     [Server ''received'', Server ''prompt-built'', Server ''stream-open'',
      Server ''fallback-topup'', Server ''second-retry'', Server ''final-retry'',
      Server ''final-single-regeneration'',
      Question 1 (sanitizeQuestion (synthetic ''algebra'' 1)), Progress 1 1, Done]"
  by code_simp

text \<open>
  The duplicate check of single-item recovery. The set of fingerprints is empty when the
  loop begins. The candidates of the model that the loop accepts have pairwise distinct
  fingerprints, the fingerprint being taken from the stem as the model gave it; the set
  holds exactly these; and the question events of the loop are those of its slots, in
  order.
\<close>

lemma single_recovery_distinct:
  "single_loop parse up topic count s [] [] = (s', existing, filled) \<Longrightarrow>
   distinct (map (normalize \<circ> stem_of) (candidates_of filled)) \<and>
   existing = map (normalize \<circ> stem_of) (candidates_of filled) \<and>
   question_events (out s') = question_events (out s) @ slot_events topic (emitted s) filled"
  using single_loop_result [of parse up topic count s "[]" "[]" s' existing filled]
  by auto

lemma single_recovery_distinct_example:
  "snd (single_loop sample_parse repeating_upstream ''algebra'' 2 start [] []) =
     ([normalize (stem_of sample_unit)], [FromModel sample_unit, Filler]) \<and>
   distinct (map (normalize \<circ> stem_of) (candidates_of [FromModel sample_unit, Filler]))"
proof -
  have e: "snd (single_loop sample_parse repeating_upstream ''algebra'' 2 start [] []) =
      ([normalize (stem_of sample_unit)], [FromModel sample_unit, Filler])"
    by code_simp
  then obtain s' where "single_loop sample_parse repeating_upstream ''algebra'' 2 start [] [] =
      (s', [normalize (stem_of sample_unit)], [FromModel sample_unit, Filler])"
    by (cases "single_loop sample_parse repeating_upstream ''algebra'' 2 start [] []") simp
  from single_recovery_distinct [OF this] e show ?thesis
    by simp
qed

text \<open>
  C3 at a failing input: for a requested count of 2, the primary stream delivers one valid
  line, the three calls of the bulk top-up return an empty text, and the first call of
  single-item recovery returns the same line again. The line is accepted a second time:
  the set of fingerprints of single-item recovery is never seeded with the units enqueued
  before. The same line is also accepted twice when the primary stream delivers it twice,
  and when the primary stream delivers it once and the first call of the bulk top-up
  returns it again: these loops have no duplicate check.
\<close>

theorem duplicate_across_tiers:
  "POST_stream sample_parse (Chunks [sample_line @ [nl]]) echo_upstream ''algebra'' 2 =
     [Server ''received'', Server ''prompt-built'', Server ''stream-open'', Server ''chunk'',
      Question 1 (sanitizeQuestion sample_unit), Progress 1 2,
      Server ''fallback-topup'', Server ''second-retry'', Server ''final-retry'',
      Server ''final-single-regeneration'',
      Question 2 (sanitizeQuestion sample_unit), Progress 2 2, Done] \<and>
   question_events (POST_stream sample_parse
      (Chunks [sample_line @ [nl] @ sample_line @ [nl]]) (failing_after 0) ''algebra'' 2) =
     [(1, sanitizeQuestion sample_unit), (2, sanitizeQuestion sample_unit)] \<and>
   POST_stream sample_parse (Chunks [sample_line @ [nl]]) repeating_upstream ''algebra'' 2 =
     [Server ''received'', Server ''prompt-built'', Server ''stream-open'', Server ''chunk'',
      Question 1 (sanitizeQuestion sample_unit), Progress 1 2,
      Server ''fallback-topup'',
      Question 2 (sanitizeQuestion sample_unit), Progress 2 2, Done]"
  by code_simp

text \<open>
  C1 at a failing input: for a requested count of 1, a primary stream that delivers two
  valid lines yields two question events, with index 1 and 2. The loop over the stream has
  no test of \<open>emitted\<close> against \<open>count\<close>.
\<close>

theorem stream_exceeds_count:
  "question_events (POST_stream sample_parse
      (Chunks [sample_line @ [nl] @ other_line @ [nl]]) (\<lambda>n. Throws) ''algebra'' 1) =
     [(1, sanitizeQuestion sample_unit), (2, sanitizeQuestion other_unit)]"
  by code_simp

text \<open>
  C2 at a failing input: without the streaming API, and with an upstream that returns an
  empty text to both calls, a request for 1 question ends with the terminal event and no
  question event. The path has no single-item recovery and no synthetic unit.
\<close>

theorem fallback_path_short:
  "POST_stream sample_parse Unavailable (\<lambda>n. Text []) ''algebra'' 1 =
     [Server ''received'', Server ''prompt-built'', Server ''fallback'',
      Server ''fallback-topup'', Done]"
  by code_simp

subsection \<open>The candidate lines of the primary stream\<close>

text \<open>
  The record of the lines does not change what the handler does, and it holds the lines
  that the inner loop takes off the buffer, whatever the handler.
\<close>

lemma drain_logged:
  "drain h b st = (r, st') \<Longrightarrow>
   \<exists>ls. drain (logged h) b (st, acc) = (r, st', acc @ ls) \<and>
        drain (\<lambda>line a. a @ [line]) b acc = (r, acc @ ls)"
proof (induction h b st arbitrary: acc rule: drain.induct)
  case (1 h buffer st)
  show ?case
  proof (cases "indexOf_nl buffer")
    case None
    then have n: "nl \<notin> set buffer"
      by (simp add: indexOf_nl_None)
    with "1.prems" show ?thesis
      by (simp add: drain_no_nl)
  next
    case (Some idx)
    show ?thesis
    proof (cases "trim (take idx buffer) = []")
      case True
      from "1.prems" have "drain h (drop (Suc idx) buffer) st = (r, st')"
        unfolding drain_step [OF Some] using True by simp
      then have "\<exists>ls. drain (logged h) (drop (Suc idx) buffer) (st, acc) = (r, st', acc @ ls) \<and>
          drain (\<lambda>line a. a @ [line]) (drop (Suc idx) buffer) acc = (r, acc @ ls)"
        using "1.IH"(1) [OF Some refl refl True] by simp
      then show ?thesis
        unfolding drain_step [OF Some, of "logged h"] drain_step [OF Some, of "\<lambda>line a. a @ [line]"]
        using True by simp
    next
      case False
      let ?l = "trim (take idx buffer)"
      from "1.prems" have "drain h (drop (Suc idx) buffer) (h ?l st) = (r, st')"
        unfolding drain_step [OF Some] using False by simp
      then have "\<exists>ls. drain (logged h) (drop (Suc idx) buffer) (h ?l st, acc @ [?l]) =
            (r, st', (acc @ [?l]) @ ls) \<and>
          drain (\<lambda>line a. a @ [line]) (drop (Suc idx) buffer) (acc @ [?l]) = (r, (acc @ [?l]) @ ls)"
        using "1.IH"(2) [OF Some refl refl False, of "acc @ [?l]"] by simp
      then obtain ls where ls:
        "drain (logged h) (drop (Suc idx) buffer) (h ?l st, acc @ [?l]) = (r, st', (acc @ [?l]) @ ls)"
        "drain (\<lambda>line a. a @ [line]) (drop (Suc idx) buffer) (acc @ [?l]) = (r, (acc @ [?l]) @ ls)"
        by blast
      have "drain (logged h) buffer (st, acc) = (r, st', acc @ (?l # ls))"
        unfolding drain_step [OF Some, of "logged h"] using False ls(1) by (simp add: logged_def)
      moreover have "drain (\<lambda>line a. a @ [line]) buffer acc = (r, acc @ (?l # ls))"
        unfolding drain_step [OF Some, of "\<lambda>line a. a @ [line]"] using False ls(2) by simp
      ultimately show ?thesis
        by blast
    qed
  qed
qed

lemma feed_logged:
  "feed h pre chunks b st = (r, st') \<Longrightarrow>
   \<exists>ls. feed (logged h) (\<lambda>(s, ls). (pre s, ls)) chunks b (st, acc) = (r, st', acc @ ls) \<and>
        feed (\<lambda>line a. a @ [line]) (\<lambda>a. a) chunks b acc = (r, acc @ ls)"
proof (induction chunks arbitrary: b st acc)
  case Nil
  then show ?case by simp
next
  case (Cons t chunks)
  obtain b1 s1 where d: "drain h (b @ t) (pre st) = (b1, s1)"
    by (cases "drain h (b @ t) (pre st)")
  obtain l1 where l1: "drain (logged h) (b @ t) (pre st, acc) = (b1, s1, acc @ l1)"
    "drain (\<lambda>line a. a @ [line]) (b @ t) acc = (b1, acc @ l1)"
    using drain_logged [OF d, of acc] by blast
  from Cons.prems d have f: "feed h pre chunks b1 s1 = (r, st')"
    by simp
  obtain l2 where l2:
    "feed (logged h) (\<lambda>(s, ls). (pre s, ls)) chunks b1 (s1, acc @ l1) = (r, st', (acc @ l1) @ l2)"
    "feed (\<lambda>line a. a @ [line]) (\<lambda>a. a) chunks b1 (acc @ l1) = (r, (acc @ l1) @ l2)"
    using Cons.IH [OF f, of "acc @ l1"] by blast
  have "feed (logged h) (\<lambda>(s, ls). (pre s, ls)) (t # chunks) b (st, acc) = (r, st', acc @ (l1 @ l2))"
    using l1(1) l2(1) by simp
  moreover have "feed (\<lambda>line a. a @ [line]) (\<lambda>a. a) (t # chunks) b acc = (r, acc @ (l1 @ l2))"
    using l1(2) l2(2) by simp
  ultimately show ?case
    by blast
qed

lemma flush_lines_fold:
  "flush_lines parse count ls s =
   fold (handle_line parse count sanitizeQuestion
           [Server ''parse-error-trailing''] [Server ''invalid-trailing''])
     (flush_candidates parse count ls s) s"
  by (induction ls arbitrary: s) simp_all

lemma emitted_enqueue [simp]: "emitted (enqueue es s) = emitted s"
  by (simp add: enqueue_def)

lemma emitted_handle_line:
  "emitted (handle_line parse count san on_throw on_invalid line s) =
   emitted s + (if accepted parse line then 1 else 0)"
  by (simp add: handle_line_def accepted_def split: option.splits)

lemma fold_handle_line_emitted:
  "emitted (fold (handle_line parse count san on_throw on_invalid) ls s) =
   emitted s + length (filter (accepted parse) ls)"
  by (induction ls arbitrary: s) (simp_all add: emitted_handle_line)


text \<open>
  The candidate lines are those of the loop and of the flush that \<open>stream_path\<close> runs: the
  loop leaves the buffer and the session of the route, the number of units enqueued is the
  number of accepted lines, and the flush handles its candidates one after the other.
\<close>

lemma stream_candidates_route:
  assumes f: "feed (handle_line parse count sanitizeQuestion [] [Server ''invalid''])
      (enqueue [Server ''chunk'']) chunks [] (enqueue [Server ''stream-open''] start) = (buffer, s1)"
  shows "\<exists>drained fl.
     stream_candidates parse count chunks = drained @ fl \<and>
     feed (logged (handle_line parse count sanitizeQuestion [] [Server ''invalid'']))
       (\<lambda>(s, ls). (enqueue [Server ''chunk''] s, ls)) chunks []
       (enqueue [Server ''stream-open''] start, []) = (buffer, s1, drained) \<and>
     feed (\<lambda>line a. a @ [line]) (\<lambda>a. a) chunks [] [] = (buffer, drained) \<and>
     emitted s1 = length (filter (accepted parse) drained) \<and>
     flush parse count buffer s1 =
       fold (handle_line parse count sanitizeQuestion
               [Server ''parse-error-trailing''] [Server ''invalid-trailing'']) fl s1"
proof -
  let ?h = "handle_line parse count sanitizeQuestion [] [Server ''invalid'']"
  let ?pre = "\<lambda>(s :: session, ls :: string list). (enqueue [Server ''chunk''] s, ls)"
  let ?s0 = "enqueue [Server ''stream-open''] start"
  obtain drained where l: "feed (logged ?h) ?pre chunks [] (?s0, []) = (buffer, s1, drained)"
    and c: "feed (\<lambda>line a. a @ [line]) (\<lambda>a. a) chunks [] [] = (buffer, drained)"
    using feed_logged [OF f, of "[]"] by auto
  let ?P = "\<lambda>x :: session \<times> string list. emitted (fst x) = length (filter (accepted parse) (snd x))"
  have "?P (s1, drained)"
  proof (rule feed_preserves [where P = ?P, OF _ _ _ l])
    show "\<And>l x. ?P x \<Longrightarrow> ?P (logged ?h l x)"
      by (simp add: logged_def split_def emitted_handle_line)
    show "\<And>x. ?P x \<Longrightarrow> ?P (?pre x)"
      by (simp add: split_def)
    show "?P (?s0, [])"
      by (simp add: start_def)
  qed
  then have e: "emitted s1 = length (filter (accepted parse) drained)"
    by simp
  let ?fl = "if 0 < length (trim buffer) \<and> of_nat (emitted s1) < count
    then flush_candidates parse count (lines_of buffer) s1 else []"
  have "stream_candidates parse count chunks = drained @ ?fl"
    by (simp add: stream_candidates_def l)
  moreover have "flush parse count buffer s1 =
      fold (handle_line parse count sanitizeQuestion
              [Server ''parse-error-trailing''] [Server ''invalid-trailing'']) ?fl s1"
    by (simp add: flush_def flush_lines_fold)
  ultimately show ?thesis
    using l c e by blast
qed

lemma stream_candidates_text:
  assumes d: "drain (\<lambda>line a. a @ [line]) (concat chunks) [] = (buffer, drained)"
  shows "stream_candidates parse count chunks =
     drained @ (if trim buffer \<noteq> [] \<and> of_nat (length (filter (accepted parse) drained)) < count
                then [trim buffer] else [])"
proof -
  let ?h = "handle_line parse count sanitizeQuestion [] [Server ''invalid'']"
  let ?s0 = "enqueue [Server ''stream-open''] start"
  obtain b s1 where f: "feed ?h (enqueue [Server ''chunk'']) chunks [] ?s0 = (b, s1)"
    by (cases "feed ?h (enqueue [Server ''chunk'']) chunks [] ?s0")
  obtain dr fl where r: "stream_candidates parse count chunks = dr @ fl"
    "feed (logged ?h) (\<lambda>(s, ls). (enqueue [Server ''chunk''] s, ls)) chunks [] (?s0, []) = (b, s1, dr)"
    "feed (\<lambda>line a. a @ [line]) (\<lambda>a. a) chunks [] [] = (b, dr)"
    "emitted s1 = length (filter (accepted parse) dr)"
    using stream_candidates_route [OF f] by blast
  have "feed (\<lambda>line a. a @ [line]) (\<lambda>a. a) chunks [] [] =
      drain (\<lambda>line a. a @ [line]) (concat chunks) []"
    using feed_concat [of "[]" "\<lambda>line a. a @ [line]" chunks "[]"] by simp
  with r(3) d have eq: "b = buffer" "dr = drained"
    by simp_all
  have n: "nl \<notin> set buffer"
    using d by (rule drain_rest_no_nl)
  have "stream_candidates parse count chunks =
      drained @ (if 0 < length (trim buffer) \<and> of_nat (emitted s1) < count
                 then flush_candidates parse count (lines_of buffer) s1 else [])"
    using r(2) by (simp add: stream_candidates_def eq)
  also have "(if 0 < length (trim buffer) \<and> of_nat (emitted s1) < count
                 then flush_candidates parse count (lines_of buffer) s1 else []) =
      (if trim buffer \<noteq> [] \<and> of_nat (length (filter (accepted parse) drained)) < count
                then [trim buffer] else [])"
    using r(4) n by (auto simp: eq lines_of_no_nl)
  finally show ?thesis .
qed

lemma stream_candidates_prefix:
  "\<exists>rest. lines_of (concat chunks) = stream_candidates parse count chunks @ rest \<and> length rest \<le> 1"
proof -
  obtain buffer drained where d: "drain (\<lambda>line a. a @ [line]) (concat chunks) [] = (buffer, drained)"
    by (cases "drain (\<lambda>line a. a @ [line]) (concat chunks) ([] :: string list)")
  have "lines_of (concat chunks) = drained @ (if trim buffer = [] then [] else [trim buffer])"
    using drain_collect_lines [OF d] by simp
  then show ?thesis
    unfolding stream_candidates_text [OF d] by auto
qed

lemma stream_candidates_trimmed:
  "l \<in> set (stream_candidates parse count chunks) \<Longrightarrow> l \<noteq> [] \<and> trim l = l"
proof -
  assume l: "l \<in> set (stream_candidates parse count chunks)"
  obtain rest where "lines_of (concat chunks) = stream_candidates parse count chunks @ rest"
    using stream_candidates_prefix by blast
  with l have "l \<in> set (lines_of (concat chunks))"
    by simp
  then show ?thesis
    by (rule lines_of_trimmed)
qed


text \<open>
  The units that the route has enqueued when the bulk top-up begins are those of the
  candidate lines that parse and pass the Validator, sanitized, in order and numbered
  from 1.
\<close>

lemma units_of_append: "units_of parse (xs @ ys) = units_of parse xs @ units_of parse ys"
  by (induction xs) (simp_all split: option.splits)

lemma numbered_snoc: "numbered (us @ [u]) = numbered us @ [(Suc (length us), u)]"
  by (simp add: numbered_def enumerate_append_eq)

lemma delivers_enqueue: "quiet es \<Longrightarrow> delivers parse s ls \<Longrightarrow> delivers parse (enqueue es s) ls"
  by (simp add: delivers_def enqueue_def quiet_def question_events_append)

lemma delivers_handle_line:
  assumes "quiet on_throw" "quiet on_invalid" "delivers parse s ls"
  shows "delivers parse (handle_line parse count sanitizeQuestion on_throw on_invalid line s)
           (ls @ [line])"
proof (cases "parse line")
  case None
  with assms show ?thesis
    using delivers_enqueue [OF assms(1,3)]
    by (simp add: handle_line_def delivers_def units_of_append)
next
  case (Some obj)
  show ?thesis
  proof (cases "isValidQuestion obj")
    case True
    have "emitted (emit_question count (sanitizeQuestion obj) s) = Suc (emitted s)"
      by (simp add: emit_question_def enqueue_def)
    with assms(3) Some True show ?thesis
      by (simp add: handle_line_def delivers_def units_of_append question_events_emit
            numbered_snoc)
  next
    case False
    with Some assms show ?thesis
      using delivers_enqueue [OF assms(2,3)]
      by (simp add: handle_line_def delivers_def units_of_append)
  qed
qed

lemma delivers_fold:
  "quiet on_throw \<Longrightarrow> quiet on_invalid \<Longrightarrow> delivers parse s ls \<Longrightarrow>
   delivers parse (fold (handle_line parse count sanitizeQuestion on_throw on_invalid) fl s)
     (ls @ fl)"
proof (induction fl arbitrary: s ls)
  case Nil
  then show ?case by simp
next
  case (Cons l fl)
  have "delivers parse (handle_line parse count sanitizeQuestion on_throw on_invalid l s)
      (ls @ [l])"
    using Cons.prems by (rule delivers_handle_line)
  from Cons.IH [OF Cons.prems(1,2) this] show ?case
    by simp
qed

lemma stream_path_candidates:
  "\<exists>s2. stream_path parse up topic count chunks False =
          (case bulk_topup parse up count s2 of
             Raises s3 \<Rightarrow> Raises s3
           | Returns s3 \<Rightarrow> Returns (enqueue [Done] (single_recovery parse up topic count s3))) \<and>
        emitted s2 = length (units_of parse (stream_candidates parse count chunks)) \<and>
        question_events (out s2) = numbered (units_of parse (stream_candidates parse count chunks))"
proof -
  let ?h = "handle_line parse count sanitizeQuestion [] [Server ''invalid'']"
  let ?pre = "\<lambda>(s :: session, ls :: string list). (enqueue [Server ''chunk''] s, ls)"
  let ?s0 = "enqueue [Server ''stream-open''] start"
  obtain buffer s1 where f: "feed ?h (enqueue [Server ''chunk'']) chunks [] ?s0 = (buffer, s1)"
    by (cases "feed ?h (enqueue [Server ''chunk'']) chunks [] ?s0")
  obtain drained fl where r: "stream_candidates parse count chunks = drained @ fl"
    "feed (logged ?h) ?pre chunks [] (?s0, []) = (buffer, s1, drained)"
    "flush parse count buffer s1 =
       fold (handle_line parse count sanitizeQuestion
               [Server ''parse-error-trailing''] [Server ''invalid-trailing'']) fl s1"
    using stream_candidates_route [OF f] by blast
  let ?P = "\<lambda>x :: session \<times> string list. delivers parse (fst x) (snd x)"
  have "?P (s1, drained)"
  proof (rule feed_preserves [where P = ?P, OF _ _ _ r(2)])
    show "\<And>l x. ?P x \<Longrightarrow> ?P (logged ?h l x)"
      by (simp add: logged_def split_def delivers_handle_line)
    show "\<And>x. ?P x \<Longrightarrow> ?P (?pre x)"
      by (simp add: split_def delivers_enqueue)
    show "?P (?s0, [])"
      by (simp add: start_def delivers_def enqueue_def numbered_def)
  qed
  then have "delivers parse s1 drained"
    by simp
  then have "delivers parse (flush parse count buffer s1) (drained @ fl)"
    unfolding r(3) by (intro delivers_fold) simp_all
  then have d: "delivers parse (flush parse count buffer s1) (stream_candidates parse count chunks)"
    by (simp add: r(1))
  have "stream_path parse up topic count chunks False =
      (case bulk_topup parse up count (flush parse count buffer s1) of
         Raises s3 \<Rightarrow> Raises s3
       | Returns s3 \<Rightarrow> Returns (enqueue [Done] (single_recovery parse up topic count s3)))"
    by (simp add: stream_path_def f)
  with d show ?thesis
    unfolding delivers_def by blast
qed


text \<open>
  C9 (as amended). The candidate lines of a stream depend only on the concatenation of its
  chunks. Chunks that concatenate to "A\\nB\\nC" yield A, B, C, the flush of the undelimited
  remainder C included (A and B are not JSON, so no unit is enqueued before the flush and
  its guard \<open>emitted < count\<close> holds for a positive count). The chunk "A\\nB" followed by the
  chunk "C\\n" yields A and BC: the partial line B stays in the buffer and is completed by
  the next chunk. In general the candidates are the trimmed, non-empty pieces between line
  feeds of the whole text, in order, none dropped or duplicated: the pieces that end in a
  line feed, then the undelimited remainder when it is not blank and fewer of the pieces
  before it than the requested count were accepted (otherwise the flush is not made, the
  count being reached). No candidate is empty or only white space.
\<close>

theorem framer_round_trip:
  "(concat chunks = concat chunks' \<longrightarrow>
      stream_candidates parse count chunks = stream_candidates parse count chunks') \<and>
   (parse ''A'' = None \<and> parse ''B'' = None \<and> 0 < count \<and>
    concat chunks = ''A\<newline>B\<newline>C'' \<longrightarrow>
      stream_candidates parse count chunks = [''A'', ''B'', ''C'']) \<and>
   stream_candidates parse count [''A\<newline>B'', ''C\<newline>''] = [''A'', ''BC''] \<and>
   (\<exists>rest. lines_of (concat chunks) = stream_candidates parse count chunks @ rest \<and>
      length rest \<le> 1) \<and>
   (drain (\<lambda>line a. a @ [line]) (concat chunks) [] = (buffer, delimited) \<longrightarrow>
      stream_candidates parse count chunks =
        delimited @
        (if trim buffer \<noteq> [] \<and> of_nat (length (filter (accepted parse) delimited)) < count
         then [trim buffer] else [])) \<and>
   (\<forall>l\<in>set (stream_candidates parse count chunks). l \<noteq> [] \<and> trim l = l)"
proof (intro conjI impI ballI)
  assume c: "concat chunks = concat chunks'"
  obtain buffer drained where d: "drain (\<lambda>line a. a @ [line]) (concat chunks) [] = (buffer, drained)"
    by (cases "drain (\<lambda>line a. a @ [line]) (concat chunks) ([] :: string list)")
  from d c have d': "drain (\<lambda>line a. a @ [line]) (concat chunks') [] = (buffer, drained)"
    by simp
  show "stream_candidates parse count chunks = stream_candidates parse count chunks'"
    unfolding stream_candidates_text [OF d] stream_candidates_text [OF d'] ..
next
  assume a: "parse ''A'' = None \<and> parse ''B'' = None \<and> 0 < count \<and>
    concat chunks = ''A\<newline>B\<newline>C''"
  have "drain (\<lambda>line a. a @ [line]) ''A\<newline>B\<newline>C'' [] = (''C'', [''A'', ''B''])"
    by code_simp
  with a have d: "drain (\<lambda>line a. a @ [line]) (concat chunks) [] = (''C'', [''A'', ''B''])"
    by simp
  have t: "trim ''C'' = ''C''"
    by code_simp
  show "stream_candidates parse count chunks = [''A'', ''B'', ''C'']"
    unfolding stream_candidates_text [OF d] using a by (simp add: accepted_def t)
next
  have d: "drain (\<lambda>line a. a @ [line]) (concat [''A\<newline>B'', ''C\<newline>'']) [] = ([], [''A'', ''BC''])"
    by code_simp
  show "stream_candidates parse count [''A\<newline>B'', ''C\<newline>''] = [''A'', ''BC'']"
    unfolding stream_candidates_text [OF d] by (simp add: trim_def)
next
  show "\<exists>rest. lines_of (concat chunks) = stream_candidates parse count chunks @ rest \<and>
      length rest \<le> 1"
    by (rule stream_candidates_prefix)
next
  assume "drain (\<lambda>line a. a @ [line]) (concat chunks) [] = (buffer, delimited)"
  then show "stream_candidates parse count chunks =
      delimited @
      (if trim buffer \<noteq> [] \<and> of_nat (length (filter (accepted parse) delimited)) < count
       then [trim buffer] else [])"
    by (rule stream_candidates_text)
next
  fix l
  assume "l \<in> set (stream_candidates parse count chunks)"
  then show "l \<noteq> []" "trim l = l"
    using stream_candidates_trimmed by blast+
qed

theorem framer_round_trip_witness:
  "sample_parse ''A'' = None \<and> sample_parse ''B'' = None \<and> (0 :: rat) < 1 \<and>
   concat [''A\<newline>'', ''B\<newline>C''] = ''A\<newline>B\<newline>C'' \<and>
   stream_candidates sample_parse 1 [''A\<newline>'', ''B\<newline>C''] = [''A'', ''B'', ''C''] \<and>
   concat [''A\<newline>B'', ''C\<newline>''] = concat [''A\<newline>BC\<newline>''] \<and>
   stream_candidates sample_parse 1 [''A\<newline>B'', ''C\<newline>''] =
     stream_candidates sample_parse 1 [''A\<newline>BC\<newline>''] \<and>
   drain (\<lambda>line a. a @ [line]) (concat [sample_line @ [nl] @ other_line]) [] =
     (other_line, [sample_line]) \<and>
   stream_candidates sample_parse 1 [sample_line @ [nl] @ other_line] = [sample_line] \<and>
   stream_candidates sample_parse 2 [sample_line @ [nl] @ other_line] =
     [sample_line, other_line]"
proof -
  have p: "sample_parse ''A'' = None" "sample_parse ''B'' = None"
    by (simp_all add: sample_parse_def sample_line_def other_line_def)
  have c: "concat [''A\<newline>'', ''B\<newline>C''] = ''A\<newline>B\<newline>C''"
    "concat [''A\<newline>B'', ''C\<newline>''] = concat [''A\<newline>BC\<newline>'']"
    by simp_all
  have 1: "stream_candidates sample_parse 1 [''A\<newline>'', ''B\<newline>C''] = [''A'', ''B'', ''C'']"
    by (rule framer_round_trip [of "[''A\<newline>'', ''B\<newline>C'']" "[]" sample_parse 1,
          THEN conjunct2, THEN conjunct1, THEN mp])
       (simp add: p)
  have 2: "stream_candidates sample_parse 1 [''A\<newline>B'', ''C\<newline>''] =
      stream_candidates sample_parse 1 [''A\<newline>BC\<newline>'']"
    by (rule framer_round_trip [of "[''A\<newline>B'', ''C\<newline>'']" "[''A\<newline>BC\<newline>'']"
          sample_parse 1, THEN conjunct1, THEN mp])
       (rule c(2))
  have d: "drain (\<lambda>line a. a @ [line]) (concat [sample_line @ [nl] @ other_line]) [] =
      (other_line, [sample_line])"
    by code_simp
  have a: "accepted sample_parse sample_line"
    by code_simp
  have t: "trim other_line = other_line" "other_line \<noteq> []"
    by code_simp+
  have 3: "stream_candidates sample_parse 1 [sample_line @ [nl] @ other_line] = [sample_line]"
    using framer_round_trip [of "[sample_line @ [nl] @ other_line]" "[]" sample_parse 1
        other_line "[sample_line]",
        THEN conjunct2, THEN conjunct2, THEN conjunct2, THEN conjunct2, THEN conjunct1,
        THEN mp, OF d] a t
    by simp
  have 4: "stream_candidates sample_parse 2 [sample_line @ [nl] @ other_line] =
      [sample_line, other_line]"
    using framer_round_trip [of "[sample_line @ [nl] @ other_line]" "[]" sample_parse 2
        other_line "[sample_line]",
        THEN conjunct2, THEN conjunct2, THEN conjunct2, THEN conjunct2, THEN conjunct1,
        THEN mp, OF d] a t
    by simp
  show ?thesis
    by (intro conjI p c 1 2 d 3 4) simp
qed

text \<open>
  C9 as stated expects A, B, C from the chunk "A\\nB" followed by the chunk "C\\n": the two
  chunks concatenate to "A\\nBC\\n", and the candidates are A and BC.
\<close>

theorem framer_chunks_counterexample:
  "stream_candidates sample_parse 10 [''A\<newline>B'', ''C\<newline>''] \<noteq> [''A'', ''B'', ''C'']"
proof -
  have d: "drain (\<lambda>line a. a @ [line]) (concat [''A\<newline>B'', ''C\<newline>'']) [] = ([], [''A'', ''BC''])"
    by code_simp
  show ?thesis
    unfolding stream_candidates_text [OF d] by (simp add: trim_def)
qed

section \<open>Properties of the non-streaming route\<close>







end
